theory Spec2Isabelle
  imports Complex_Main "HOL-Library.Sublist"
begin

section \<open>Python values\<close>

text \<open>
  A Python \<open>str\<close> is a sequence of Unicode code points, so \<open>len\<close>, \<open>find\<close>, slicing
  and \<open>split\<close> count code points.  A code point is a natural number here; \<open>ustr\<close>
  embeds an ASCII literal, and the Korean literals of the source are written as lists
  of code points.
\<close>

type_synonym pystr = "nat list"

definition ustr :: "string \<Rightarrow> pystr" where
  "ustr s = map of_char s"

datatype py_error =
    TypeError
  | AttributeError
  | ValueError
  | ZeroDivisionError
  | JSONDecodeError
  | UnicodeEncodeError
  | OtherError pystr

text \<open>
  What \<open>json.loads\<close> can return: \<open>None\<close>, booleans, integers, floats, strings, lists
  and dictionaries with string keys (an association list in insertion order, one entry
  per key).  A float read from JSON is only ever tested for truth.
\<close>

datatype pyfloat = FFinite real | FInf bool | FNaN

datatype pyval =
    PyNone
  | PyBool bool
  | PyInt int
  | PyFloat pyfloat
  | PyStr pystr
  | PyList "pyval list"
  | PyDict "(pystr \<times> pyval) list"

section \<open>Built-in operations\<close>

text \<open>\<open>str.isspace\<close> for one code point: the table CPython uses for \<open>strip()\<close> and \<open>split()\<close>.\<close>

definition is_space :: "nat \<Rightarrow> bool" where
  "is_space c \<longleftrightarrow>
     (9 \<le> c \<and> c \<le> 13) \<or> (28 \<le> c \<and> c \<le> 32) \<or> c = 133 \<or> c = 160 \<or> c = 5760 \<or>
     (8192 \<le> c \<and> c \<le> 8202) \<or> c = 8232 \<or> c = 8233 \<or> c = 8239 \<or> c = 8287 \<or> c = 12288"

text \<open>\<open>s.strip()\<close>\<close>

definition strip :: "pystr \<Rightarrow> pystr" where
  "strip s = rev (dropWhile is_space (rev (dropWhile is_space s)))"

text \<open>
  \<open>s.split()\<close>: the maximal runs of non-whitespace characters, in order.  \<open>split_from\<close>
  carries the token being read.
\<close>

fun split_from :: "pystr \<Rightarrow> pystr \<Rightarrow> pystr list" where
  "split_from cur [] = (if cur = [] then [] else [cur])"
| "split_from cur (c # cs) =
     (if is_space c then (if cur = [] then split_from [] cs else cur # split_from [] cs)
      else split_from (cur @ [c]) cs)"

definition str_split :: "pystr \<Rightarrow> pystr list" where
  "str_split s = split_from [] s"

text \<open>
  \<open>s.find(sub, start)\<close>: the lowest index \<open>i \<ge> start\<close> at which \<open>sub\<close> occurs in \<open>s\<close>,
  or \<open>-1\<close>.  \<open>find_at sub t i\<close> scans the rest \<open>t\<close> of the text, whose first character has
  index \<open>i\<close>.
\<close>

fun find_at :: "pystr \<Rightarrow> pystr \<Rightarrow> nat \<Rightarrow> int" where
  "find_at sub [] i = (if sub = [] then int i else - 1)"
| "find_at sub (c # cs) i = (if prefix sub (c # cs) then int i else find_at sub cs (Suc i))"

definition py_find :: "pystr \<Rightarrow> pystr \<Rightarrow> nat \<Rightarrow> int" where
  "py_find s sub start = (if length s < start then - 1 else find_at sub (drop start s) start)"

text \<open>\<open>s.rfind(sub)\<close>: the highest index at which \<open>sub\<close> occurs in \<open>s\<close>, or \<open>-1\<close>.\<close>

fun rfind_at :: "pystr \<Rightarrow> pystr \<Rightarrow> nat \<Rightarrow> int \<Rightarrow> int" where
  "rfind_at sub [] i best = (if sub = [] then int i else best)"
| "rfind_at sub (c # cs) i best =
     rfind_at sub cs (Suc i) (if prefix sub (c # cs) then int i else best)"

definition py_rfind :: "pystr \<Rightarrow> pystr \<Rightarrow> int" where
  "py_rfind s sub = rfind_at sub s 0 (- 1)"

text \<open>\<open>sub in s\<close>\<close>

definition py_in :: "pystr \<Rightarrow> pystr \<Rightarrow> bool" where
  "py_in sub s \<longleftrightarrow> py_find s sub 0 \<noteq> - 1"

text \<open>
  \<open>s[a:b]\<close> for integers \<open>a\<close> and \<open>b\<close>: a negative index counts from the end, and both
  are clamped to \<open>0 .. len(s)\<close>.
\<close>

definition slice_index :: "nat \<Rightarrow> int \<Rightarrow> nat" where
  "slice_index n i = (if i < 0 then nat (max 0 (int n + i)) else min n (nat i))"

definition py_slice :: "'a list \<Rightarrow> int \<Rightarrow> int \<Rightarrow> 'a list" where
  "py_slice s a b =
     (let lo = slice_index (length s) a; hi = slice_index (length s) b
      in take (hi - lo) (drop lo s))"



text \<open>
  \<open>len(v)\<close>: strings, lists and dictionaries have a length; \<open>None\<close>, booleans and numbers
  raise \<open>TypeError\<close>.
\<close>

definition py_len :: "pyval \<Rightarrow> py_error + nat" where
  "py_len v =
     (case v of
        PyStr s \<Rightarrow> Inr (length s)
      | PyList xs \<Rightarrow> Inr (length xs)
      | PyDict kvs \<Rightarrow> Inr (length kvs)
      | _ \<Rightarrow> Inl TypeError)"

text \<open>
  \<open>v[:n]\<close> for \<open>n \<ge> 0\<close>: strings and lists keep their first \<open>n\<close> elements; every other
  value raises (a dictionary raises \<open>TypeError\<close>, or \<open>KeyError\<close> from CPython 3.12 on:
  both reach the same handler).
\<close>

definition py_take :: "pyval \<Rightarrow> nat \<Rightarrow> py_error + pyval" where
  "py_take v n =
     (case v of
        PyStr s \<Rightarrow> Inr (PyStr (take n s))
      | PyList xs \<Rightarrow> Inr (PyList (take n xs))
      | _ \<Rightarrow> Inl TypeError)"

text \<open>\<open>data.get(key, default)\<close>: only a dictionary has \<open>get\<close>.\<close>

definition py_get :: "pyval \<Rightarrow> pystr \<Rightarrow> pyval \<Rightarrow> py_error + pyval" where
  "py_get data key dflt =
     (case data of
        PyDict kvs \<Rightarrow> Inr (case map_of kvs key of Some v \<Rightarrow> v | None \<Rightarrow> dflt)
      | _ \<Rightarrow> Inl AttributeError)"

text \<open>Truth value of an object, as \<open>not v\<close> and \<open>if v\<close> test it.\<close>

definition truthy :: "pyval \<Rightarrow> bool" where
  "truthy v =
     (case v of
        PyNone \<Rightarrow> False
      | PyBool b \<Rightarrow> b
      | PyInt i \<Rightarrow> i \<noteq> 0
      | PyFloat f \<Rightarrow> f \<noteq> FFinite 0
      | PyStr s \<Rightarrow> s \<noteq> []
      | PyList xs \<Rightarrow> xs \<noteq> []
      | PyDict kvs \<Rightarrow> kvs \<noteq> [])"

text \<open>
  \<open>for x in v\<close>: a string yields its characters as one-character strings, a list its
  elements, a dictionary its keys; nothing else is iterable.
\<close>

definition py_iter :: "pyval \<Rightarrow> py_error + pyval list" where
  "py_iter v =
     (case v of
        PyStr s \<Rightarrow> Inr (map (\<lambda>c. PyStr [c]) s)
      | PyList xs \<Rightarrow> Inr xs
      | PyDict kvs \<Rightarrow> Inr (map (\<lambda>kv. PyStr (fst kv)) kvs)
      | _ \<Rightarrow> Inl TypeError)"

text \<open>\<open>x.split()\<close>: only a string has \<open>split\<close>.\<close>

definition py_split :: "pyval \<Rightarrow> py_error + pystr list" where
  "py_split x = (case x of PyStr s \<Rightarrow> Inr (str_split s) | _ \<Rightarrow> Inl AttributeError)"

subsection \<open>Float division\<close>

text \<open>
  \<open>a / b\<close> on integers is the quotient rounded to the nearest binary64 number, ties to
  the even significand.  A float is modelled by the real number it denotes.  For a
  quotient \<open>q\<close> with \<open>2 powi e \<le> q < 2 powi (e + 1)\<close> the binary64 numbers are spaced
  \<open>2 powi (e - 52)\<close> apart, and \<open>round_to q e\<close> is the one nearest to \<open>q\<close>; \<open>bit_length\<close>,
  the number of binary digits, locates \<open>e\<close>.  The exponent range of binary64 is not
  modelled: the operands here are lengths of lists, so a quotient that is not zero lies
  between \<open>2 powi (- 63)\<close> and \<open>2 powi 63\<close>.
\<close>

fun bit_length :: "nat \<Rightarrow> nat" where
  "bit_length n = (if n = 0 then 0 else Suc (bit_length (n div 2)))"

declare bit_length.simps [simp del]

definition round_half_even :: "real \<Rightarrow> int" where
  "round_half_even x =
     (let f = \<lfloor>x\<rfloor>; d = x - of_int f
      in if d < 1 / 2 then f else if 1 / 2 < d then f + 1 else if even f then f else f + 1)"

definition round_to :: "real \<Rightarrow> int \<Rightarrow> real" where
  "round_to q e = (let ulp = 2 powi (e - 52) in of_int (round_half_even (q / ulp)) * ulp)"

definition float_div :: "nat \<Rightarrow> nat \<Rightarrow> real" where
  "float_div a b =
     (if a = 0 then 0
      else let q = of_nat a / of_nat b;
               e0 = int (bit_length a) - int (bit_length b);
               e = (if 2 powi e0 \<le> q then e0 else e0 - 1)
           in round_to q e)"

definition py_truediv :: "nat \<Rightarrow> nat \<Rightarrow> py_error + real" where
  "py_truediv a b = (if b = 0 then Inl ZeroDivisionError else Inr (float_div a b))"

text \<open>
  The float literals \<open>0.1\<close>, \<open>0.15\<close>, \<open>0.2\<close>, \<open>0.25\<close> and \<open>0.3\<close>: a decimal literal denotes
  the binary64 number nearest to its decimal value.
\<close>

definition lit_0_1 :: real where
  "lit_0_1 = float_div 1 10"

definition lit_0_15 :: real where
  "lit_0_15 = float_div 15 100"

definition lit_0_2 :: real where
  "lit_0_2 = float_div 2 10"

definition lit_0_25 :: real where
  "lit_0_25 = float_div 25 100"

definition lit_0_3 :: real where
  "lit_0_3 = float_div 3 10"

section \<open>The difficulty scorer\<close>

text \<open>
  \<^verbatim>\<open>
  def calculate_difficulty(sentences):
      if not sentences:
          return "A1"
      total_words = 0
      complex_words = 0
      for sentence in sentences:
          words = sentence.split()
          total_words += len(words)
          complex_words += len([w for w in words if len(w) > 7])
      if total_words == 0:
          return "A1"
      avg_sentence_length = total_words / len(sentences)
      complex_ratio = complex_words / total_words
      if avg_sentence_length < 10 and complex_ratio < 0.1:
          return "A1"
      elif avg_sentence_length < 15 and complex_ratio < 0.15:
          return "A2"
      elif avg_sentence_length < 20 and complex_ratio < 0.2:
          return "B1"
      elif avg_sentence_length < 25 and complex_ratio < 0.25:
          return "B2"
      elif avg_sentence_length < 30 and complex_ratio < 0.3:
          return "C1"
      else:
          return "C2"
  \<close>
  The argument is whatever the decoded JSON holds under \<open>"sentences"\<close>, so the function
  is modelled on \<open>pyval\<close>.  \<open>count_words\<close> is the \<open>for\<close> loop with its two counters, and
  \<open>classify\<close> is the closing chain of \<open>if\<close> and \<open>elif\<close>.
\<close>

fun count_words :: "pyval list \<Rightarrow> nat \<Rightarrow> nat \<Rightarrow> py_error + nat \<times> nat" where
  "count_words [] total_words complex_words = Inr (total_words, complex_words)"
| "count_words (sentence # rest) total_words complex_words =
     (case py_split sentence of
        Inl e \<Rightarrow> Inl e
      | Inr ws \<Rightarrow>
          count_words rest (total_words + length ws)
            (complex_words + length (filter (\<lambda>w. 7 < length w) ws)))"

definition classify :: "real \<Rightarrow> real \<Rightarrow> pystr" where
  "classify avg_sentence_length complex_ratio =
     (if avg_sentence_length < 10 \<and> complex_ratio < lit_0_1 then ustr ''A1''
      else if avg_sentence_length < 15 \<and> complex_ratio < lit_0_15 then ustr ''A2''
      else if avg_sentence_length < 20 \<and> complex_ratio < lit_0_2 then ustr ''B1''
      else if avg_sentence_length < 25 \<and> complex_ratio < lit_0_25 then ustr ''B2''
      else if avg_sentence_length < 30 \<and> complex_ratio < lit_0_3 then ustr ''C1''
      else ustr ''C2'')"

definition calculate_difficulty :: "pyval \<Rightarrow> py_error + pystr" where
  "calculate_difficulty v =
     (if \<not> truthy v then Inr (ustr ''A1'')
      else case py_iter v of
        Inl e \<Rightarrow> Inl e
      | Inr items \<Rightarrow>
         (case count_words items 0 0 of
            Inl e \<Rightarrow> Inl e
          | Inr (total_words, complex_words) \<Rightarrow>
             if total_words = 0 then Inr (ustr ''A1'')
             else case py_len v of
               Inl e \<Rightarrow> Inl e
             | Inr n \<Rightarrow>
                (case py_truediv total_words n of
                   Inl e \<Rightarrow> Inl e
                 | Inr avg_sentence_length \<Rightarrow>
                    (case py_truediv complex_words total_words of
                       Inl e \<Rightarrow> Inl e
                     | Inr complex_ratio \<Rightarrow>
                        Inr (classify avg_sentence_length complex_ratio)))))"

section \<open>The sentence document\<close>











section \<open>The analysis handler\<close>

subsection \<open>Extraction of the JSON text from the model's response\<close>

text \<open>
  \<^verbatim>\<open>
  if "```json" in result:
      json_start = result.find("```json") + 7
      json_end = result.find("```", json_start)
      json_str = result[json_start:json_end].strip()
  elif "{" in result and "}" in result:
      json_start = result.find("{")
      json_end = result.rfind("}") + 1
      json_str = result[json_start:json_end]
  else:
      json_str = result
  \<close>
\<close>

definition fence_json :: pystr where
  "fence_json = ustr ''```json''"

definition fence :: pystr where
  "fence = ustr ''```''"

definition lbrace :: pystr where
  "lbrace = ustr ''{''"

definition rbrace :: pystr where
  "rbrace = ustr ''}''"

definition extract_json :: "pystr \<Rightarrow> pystr" where
  "extract_json result =
     (if py_in fence_json result then
        (let json_start = py_find result fence_json 0 + 7;
             json_end = py_find result fence (nat json_start)
         in strip (py_slice result json_start json_end))
      else if py_in lbrace result \<and> py_in rbrace result then
        (let json_start = py_find result lbrace 0;
             json_end = py_rfind result rbrace + 1
         in py_slice result json_start json_end)
      else result)"

subsection \<open>Messages, the stored record and the session state\<close>

text \<open>
  What the handler shows to the user.  A message built by an f-string is kept as its
  template together with the values it interpolates.
\<close>

datatype ui_event =
    Warning_vocabulary nat nat nat
  | Warning_sentences nat nat
  | Info_aligned nat
  | Error_parse
  | Error_processing py_error
  | Write_original
  | Code pystr

text \<open>
  The dictionary stored in \<open>st.session_state.analysis_data\<close>; the field \<open>translation_list\<close>
  is its key \<open>'translations'\<close>.
\<close>

record learning_record =
  topic :: pyval
  sentences :: pyval
  translation_list :: pyval
  words :: pyval
  word_meanings :: pyval
  word_sentences :: pyval
  difficulty_level :: pystr

record session_state =
  analysis_data :: "learning_record option"
  current_url :: pystr

text \<open>
  A block of statements yields the messages it has shown and either an exception or a
  value.  \<open>bind_io\<close> runs one block after another; an exception ends the run, keeping
  the messages shown until then.
\<close>

type_synonym 'a io = "ui_event list \<times> (py_error + 'a)"

definition return_io :: "'a \<Rightarrow> 'a io" where
  "return_io x = ([], Inr x)"

definition lift_io :: "py_error + 'a \<Rightarrow> 'a io" where
  "lift_io r = ([], r)"

definition show_io :: "ui_event \<Rightarrow> unit io" where
  "show_io ev = ([ev], Inr ())"

definition bind_io :: "'a io \<Rightarrow> ('a \<Rightarrow> 'b io) \<Rightarrow> 'b io" where
  "bind_io m f =
     (case m of
        (evs, Inl e) \<Rightarrow> (evs, Inl e)
      | (evs, Inr x) \<Rightarrow> (case f x of (evs', r) \<Rightarrow> (evs @ evs', r)))"

subsection \<open>Validation of the array lengths\<close>

text \<open>
  \<^verbatim>\<open>
  if len(words) != len(word_meanings) or len(words) != len(word_sentences):
      st.warning(f"... {len(words)} ... {len(word_meanings)} ... {len(word_sentences)} ...")
      min_length = min(len(words), len(word_meanings), len(word_sentences))
      words = words[:min_length]
      word_meanings = word_meanings[:min_length]
      word_sentences = word_sentences[:min_length]
      st.info(f"... {min_length} ...")
  \<close>
  The arguments \<open>ws\<close>, \<open>wm\<close> and \<open>wx\<close> stand for \<open>words\<close>, \<open>word_meanings\<close> and
  \<open>word_sentences\<close>.
\<close>

definition vocabulary_mismatch :: "pyval \<Rightarrow> pyval \<Rightarrow> pyval \<Rightarrow> bool io" where
  "vocabulary_mismatch ws wm wx =
     bind_io (lift_io (py_len ws)) (\<lambda>a.
     bind_io (lift_io (py_len wm)) (\<lambda>b.
     if a \<noteq> b then return_io True
     else bind_io (lift_io (py_len ws)) (\<lambda>a'.
          bind_io (lift_io (py_len wx)) (\<lambda>c.
          return_io (a' \<noteq> c)))))"

definition fix_vocabulary :: "pyval \<Rightarrow> pyval \<Rightarrow> pyval \<Rightarrow> (pyval \<times> pyval \<times> pyval) io" where
  "fix_vocabulary ws wm wx =
     bind_io (vocabulary_mismatch ws wm wx) (\<lambda>mismatch.
     if mismatch then
       bind_io (lift_io (py_len ws)) (\<lambda>a.
       bind_io (lift_io (py_len wm)) (\<lambda>b.
       bind_io (lift_io (py_len wx)) (\<lambda>c.
       bind_io (show_io (Warning_vocabulary a b c)) (\<lambda>_.
       let min_length = min a (min b c) in
       bind_io (lift_io (py_take ws min_length)) (\<lambda>ws'.
       bind_io (lift_io (py_take wm min_length)) (\<lambda>wm'.
       bind_io (lift_io (py_take wx min_length)) (\<lambda>wx'.
       bind_io (show_io (Info_aligned min_length)) (\<lambda>_.
       return_io (ws', wm', wx')))))))))
     else return_io (ws, wm, wx))"

text \<open>
  \<^verbatim>\<open>
  if len(sentences) != len(translations):
      st.warning(f"... {len(sentences)} ... {len(translations)} ...")
      min_length = min(len(sentences), len(translations))
      sentences = sentences[:min_length]
      translations = translations[:min_length]
      st.info(f"... {min_length} ...")
  \<close>
  The arguments \<open>ss\<close> and \<open>ts\<close> stand for \<open>sentences\<close> and \<open>translations\<close>.
\<close>

definition fix_sentences :: "pyval \<Rightarrow> pyval \<Rightarrow> (pyval \<times> pyval) io" where
  "fix_sentences ss ts =
     bind_io (lift_io (py_len ss)) (\<lambda>a.
     bind_io (lift_io (py_len ts)) (\<lambda>b.
     if a \<noteq> b then
       bind_io (show_io (Warning_sentences a b)) (\<lambda>_.
       let min_length = min a b in
       bind_io (lift_io (py_take ss min_length)) (\<lambda>ss'.
       bind_io (lift_io (py_take ts min_length)) (\<lambda>ts'.
       bind_io (show_io (Info_aligned min_length)) (\<lambda>_.
       return_io (ss', ts')))))
     else return_io (ss, ts)))"

subsection \<open>The body of the \<open>try\<close> statement and its handlers\<close>

text \<open>
  \<open>json.loads\<close> is the parameter \<open>loads\<close>; \<open>result\<close> is the text the model returned.  The
  default topic is a Korean literal of five code points ("no topic").
\<close>

definition default_topic :: pyval where
  "default_topic = PyStr [0xC8FC, 0xC81C, 0x20, 0xC5C6, 0xC74C]"

definition process_response :: "(pystr \<Rightarrow> py_error + pyval) \<Rightarrow> pystr \<Rightarrow> learning_record io" where
  "process_response loads result =
     (let json_str = extract_json result in
      bind_io (lift_io (loads json_str)) (\<lambda>data.
      bind_io (lift_io (py_get data (ustr ''topic'') default_topic)) (\<lambda>tp.
      bind_io (lift_io (py_get data (ustr ''sentences'') (PyList []))) (\<lambda>ss.
      bind_io (lift_io (py_get data (ustr ''translations'') (PyList []))) (\<lambda>ts.
      bind_io (lift_io (py_get data (ustr ''words'') (PyList []))) (\<lambda>ws.
      bind_io (lift_io (py_get data (ustr ''word_meanings'') (PyList []))) (\<lambda>wm.
      bind_io (lift_io (py_get data (ustr ''word_sentences'') (PyList []))) (\<lambda>wx.
      bind_io (fix_vocabulary ws wm wx) (\<lambda>(ws', wm', wx').
      bind_io (fix_sentences ss ts) (\<lambda>(ss', ts').
      bind_io (lift_io (calculate_difficulty ss')) (\<lambda>level.
      return_io
        \<lparr>topic = tp, sentences = ss', translation_list = ts', words = ws',
         word_meanings = wm', word_sentences = wx', difficulty_level = level\<rparr>)))))))))))"

text \<open>
  The \<open>try\<close> statement: on success the record and the URL are stored; on an exception
  nothing is stored, and an error message and the raw response are shown.
  \<^verbatim>\<open>
      st.session_state.analysis_data = {...}
      st.session_state.current_url = url_input
  except json.JSONDecodeError as e:
      st.error(...); st.write(...); st.code(result)
  except Exception as e:
      st.error(f"... {str(e)}"); st.write(...); st.code(result)
  \<close>
\<close>

definition analyze ::
  "(pystr \<Rightarrow> py_error + pyval) \<Rightarrow> pystr \<Rightarrow> pystr \<Rightarrow> session_state \<Rightarrow> session_state \<times> ui_event list"
  where
  "analyze loads url_input result st =
     (case process_response loads result of
        (evs, Inr r) \<Rightarrow> (st\<lparr>analysis_data := Some r, current_url := url_input\<rparr>, evs)
      | (evs, Inl JSONDecodeError) \<Rightarrow> (st, evs @ [Error_parse, Write_original, Code result])
      | (evs, Inl e) \<Rightarrow> (st, evs @ [Error_processing e, Write_original, Code result]))"

section \<open>The vocabulary table\<close>

text \<open>
  \<^verbatim>\<open>
  if data['words'] and data['word_meanings'] and data['word_sentences']:
      vocab_df = pd.DataFrame({K1: data['words'], K2: data['word_meanings'],
                               K3: data['word_sentences']})
      csv = vocab_df.to_csv(index=False, encoding='utf-8')
      st.download_button(..., data=csv.encode('utf-8'), ...)
  else:
      st.warning(...)
  \<close>
  The keys \<open>K1\<close>, \<open>K2\<close> and \<open>K3\<close> are the Korean words for word (U+B2E8 U+C5B4), meaning
  (U+B73B) and example (U+C608 U+BB38).  The cells are strings.
\<close>

subsection \<open>\<open>str.encode('utf-8')\<close>\<close>



subsection \<open>\<open>DataFrame.to_csv\<close>\<close>










section \<open>Notions used to state the properties\<close>

text \<open>\<open>sub\<close> occurs in \<open>s\<close> at index \<open>k\<close>.\<close>

definition occurs_at :: "pystr \<Rightarrow> pystr \<Rightarrow> nat \<Rightarrow> bool" where
  "occurs_at sub s k \<longleftrightarrow> k \<le> length s \<and> prefix sub (drop k s)"

definition contains :: "pystr \<Rightarrow> pystr \<Rightarrow> bool" where
  "contains sub s \<longleftrightarrow> (\<exists>k\<in>set [0..<Suc (length s)]. occurs_at sub s k)"

text \<open>\<open>k\<close> is the first index from \<open>start\<close> on, respectively the last index, at which \<open>sub\<close> occurs.\<close>

definition first_occurrence :: "pystr \<Rightarrow> pystr \<Rightarrow> nat \<Rightarrow> nat \<Rightarrow> bool" where
  "first_occurrence sub s start k \<longleftrightarrow>
     start \<le> k \<and> occurs_at sub s k \<and> (\<forall>j\<in>set [start..<k]. \<not> occurs_at sub s j)"

definition last_occurrence :: "pystr \<Rightarrow> pystr \<Rightarrow> nat \<Rightarrow> bool" where
  "last_occurrence sub s k \<longleftrightarrow>
     occurs_at sub s k \<and> (\<forall>j\<in>set [Suc k..<Suc (length s)]. \<not> occurs_at sub s j)"

text \<open>
  The number of whitespace-delimited tokens of a list of sentences, and the number of
  those longer than seven characters.
\<close>

definition total_tokens :: "pystr list \<Rightarrow> nat" where
  "total_tokens S = sum_list (map (\<lambda>s. length (str_split s)) S)"

definition long_tokens :: "pystr list \<Rightarrow> nat" where
  "long_tokens S = sum_list (map (\<lambda>s. length (filter (\<lambda>w. 7 < length w) (str_split s))) S)"

text \<open>
  The six bands as the specification words them, on the exact average sentence length
  and the exact ratio of long tokens.
\<close>

definition band_of :: "real \<Rightarrow> real \<Rightarrow> pystr" where
  "band_of avg ratio =
     (if avg < 10 \<and> ratio < 10 / 100 then ustr ''A1''
      else if avg < 15 \<and> ratio < 15 / 100 then ustr ''A2''
      else if avg < 20 \<and> ratio < 20 / 100 then ustr ''B1''
      else if avg < 25 \<and> ratio < 25 / 100 then ustr ''B2''
      else if avg < 30 \<and> ratio < 30 / 100 then ustr ''C1''
      else ustr ''C2'')"












section \<open>A sample run\<close>

text \<open>
  A decoded response whose arrays disagree in length, and the record the handler stores
  for it.
\<close>

definition sample_data :: pyval where
  "sample_data = PyDict
     [(ustr ''topic'', PyStr (ustr ''Test'')),
      (ustr ''sentences'', PyList [PyStr (ustr ''Hello world'')]),
      (ustr ''translations'', PyList [PyStr [0xC548, 0xB155, 0x20, 0xC138, 0xC0C1], PyStr (ustr ''extra'')]),
      (ustr ''words'', PyList [PyStr (ustr ''Hello''), PyStr (ustr ''world'')]),
      (ustr ''word_meanings'', PyList [PyStr [0xC548, 0xB155]]),
      (ustr ''word_sentences'', PyList [PyStr (ustr ''Hello world''), PyStr (ustr ''Hello world'')])]"

definition sample_record :: learning_record where
  "sample_record =
     \<lparr>topic = PyStr (ustr ''Test''),
      sentences = PyList [PyStr (ustr ''Hello world'')],
      translation_list = PyList [PyStr [0xC548, 0xB155, 0x20, 0xC138, 0xC0C1]],
      words = PyList [PyStr (ustr ''Hello'')],
      word_meanings = PyList [PyStr [0xC548, 0xB155]],
      word_sentences = PyList [PyStr (ustr ''Hello world'')],
      difficulty_level = ustr ''A1''\<rparr>"

section \<open>Searching a string: the model against the notions\<close>

lemma contains_iff: "contains sub s \<longleftrightarrow> (\<exists>k. occurs_at sub s k)"
proof -
  have "set [0..<Suc (length s)] = {k. k \<le> length s}" by auto
  then show ?thesis by (simp only: contains_def) (auto simp: occurs_at_def)
qed

lemma first_occurrence_iff:
  "first_occurrence sub s start k \<longleftrightarrow>
     start \<le> k \<and> occurs_at sub s k \<and> (\<forall>j. start \<le> j \<and> j < k \<longrightarrow> \<not> occurs_at sub s j)"
  by (auto simp: first_occurrence_def)

lemma last_occurrence_iff:
  "last_occurrence sub s k \<longleftrightarrow> occurs_at sub s k \<and> (\<forall>j. k < j \<longrightarrow> \<not> occurs_at sub s j)"
proof -
  have "set [Suc k..<Suc (length s)] = {j. k < j \<and> j \<le> length s}" by auto
  then show ?thesis by (simp only: last_occurrence_def) (auto simp: occurs_at_def)
qed

lemma find_at_first:
  "n \<le> length t \<Longrightarrow> prefix sub (drop n t) \<Longrightarrow> \<forall>k<n. \<not> prefix sub (drop k t) \<Longrightarrow>
   find_at sub t i = int (i + n)"
proof (induction t arbitrary: n i)
  case Nil
  then show ?case by simp
next
  case (Cons c cs)
  show ?case
  proof (cases n)
    case 0
    with Cons.prems show ?thesis by simp
  next
    case (Suc m)
    with Cons.prems have np: "\<not> prefix sub (c # cs)" by force
    have "\<forall>k<m. \<not> prefix sub (drop k cs)"
      using Cons.prems(3) Suc by (metis Suc_less_eq drop_Suc_Cons)
    moreover have "m \<le> length cs" "prefix sub (drop m cs)"
      using Cons.prems Suc by simp_all
    ultimately have "find_at sub cs (Suc i) = int (Suc i + m)"
      by (rule Cons.IH[rotated 2])
    with np Suc show ?thesis by simp
  qed
qed

lemma find_at_none:
  "\<forall>k\<le>length t. \<not> prefix sub (drop k t) \<Longrightarrow> find_at sub t i = - 1"
proof (induction t arbitrary: i)
  case Nil
  then show ?case by simp
next
  case (Cons c cs)
  from Cons.prems have np: "\<not> prefix sub (c # cs)" by force
  have "\<forall>k\<le>length cs. \<not> prefix sub (drop k cs)"
    using Cons.prems by (metis Suc_le_mono drop_Suc_Cons length_Cons)
  then have "find_at sub cs (Suc i) = - 1" by (rule Cons.IH)
  with np show ?case by simp
qed

lemma rfind_at_none:
  "\<forall>k\<le>length t. \<not> prefix sub (drop k t) \<Longrightarrow> rfind_at sub t i best = best"
proof (induction t arbitrary: i best)
  case Nil
  then show ?case by simp
next
  case (Cons c cs)
  from Cons.prems have np: "\<not> prefix sub (c # cs)" by force
  have "\<forall>k\<le>length cs. \<not> prefix sub (drop k cs)"
    using Cons.prems by (metis Suc_le_mono drop_Suc_Cons length_Cons)
  then have "rfind_at sub cs (Suc i) best = best" by (rule Cons.IH)
  with np show ?case by simp
qed

lemma rfind_at_last:
  "n \<le> length t \<Longrightarrow> prefix sub (drop n t) \<Longrightarrow>
   \<forall>k. n < k \<and> k \<le> length t \<longrightarrow> \<not> prefix sub (drop k t) \<Longrightarrow>
   rfind_at sub t i best = int (i + n)"
proof (induction t arbitrary: n i best)
  case Nil
  then show ?case by simp
next
  case (Cons c cs)
  show ?case
  proof (cases n)
    case 0
    have "\<forall>k\<le>length cs. \<not> prefix sub (drop k cs)"
    proof (intro allI impI)
      fix k assume "k \<le> length cs"
      then have "\<not> prefix sub (drop (Suc k) (c # cs))"
        using Cons.prems(3) 0 by (metis Suc_le_mono length_Cons zero_less_Suc)
      then show "\<not> prefix sub (drop k cs)" by simp
    qed
    then have "rfind_at sub cs (Suc i) (int i) = int i" by (rule rfind_at_none)
    with Cons.prems 0 show ?thesis by simp
  next
    case (Suc m)
    have "\<forall>k. m < k \<and> k \<le> length cs \<longrightarrow> \<not> prefix sub (drop k cs)"
    proof (intro allI impI)
      fix k assume "m < k \<and> k \<le> length cs"
      then have "\<not> prefix sub (drop (Suc k) (c # cs))"
        using Cons.prems(3) Suc by (metis Suc_le_mono Suc_less_eq length_Cons)
      then show "\<not> prefix sub (drop k cs)" by simp
    qed
    moreover have "m \<le> length cs" "prefix sub (drop m cs)"
      using Cons.prems Suc by simp_all
    ultimately have "rfind_at sub cs (Suc i) (if prefix sub (c # cs) then int i else best) = int (Suc i + m)"
      by (rule Cons.IH[rotated 2])
    with Suc show ?thesis by simp
  qed
qed

lemma py_find_first:
  assumes "first_occurrence sub s start k"
  shows "py_find s sub start = int k"
proof -
  from assms have sk: "start \<le> k" and kl: "k \<le> length s" and pk: "prefix sub (drop k s)"
    and nk: "\<forall>j. start \<le> j \<and> j < k \<longrightarrow> \<not> occurs_at sub s j"
    by (simp_all add: first_occurrence_iff occurs_at_def)
  have a: "k - start \<le> length (drop start s)" using sk kl by simp
  have b: "prefix sub (drop (k - start) (drop start s))" using sk pk by simp
  have c: "\<forall>m<k - start. \<not> prefix sub (drop m (drop start s))"
  proof (intro allI impI)
    fix m assume m: "m < k - start"
    then have "start \<le> m + start \<and> m + start < k" by auto
    with nk have "\<not> occurs_at sub s (m + start)" by blast
    moreover have "m + start \<le> length s" using m kl by simp
    ultimately show "\<not> prefix sub (drop m (drop start s))"
      by (simp add: occurs_at_def)
  qed
  have "find_at sub (drop start s) start = int (start + (k - start))"
    by (rule find_at_first[OF a b c])
  with sk kl show ?thesis by (simp add: py_find_def)
qed

lemma py_find_none:
  assumes "\<forall>j. start \<le> j \<longrightarrow> \<not> occurs_at sub s j"
  shows "py_find s sub start = - 1"
proof (cases "length s < start")
  case True
  then show ?thesis by (simp add: py_find_def)
next
  case False
  have "\<forall>k\<le>length (drop start s). \<not> prefix sub (drop k (drop start s))"
  proof (intro allI impI)
    fix k assume "k \<le> length (drop start s)"
    with False have kl: "k + start \<le> length s" by auto
    from assms have "\<not> occurs_at sub s (k + start)" by simp
    moreover note kl
    ultimately show "\<not> prefix sub (drop k (drop start s))" by (simp add: occurs_at_def)
  qed
  then have "find_at sub (drop start s) start = - 1" by (rule find_at_none)
  with False show ?thesis by (simp add: py_find_def)
qed

lemma py_rfind_last:
  assumes "last_occurrence sub s k"
  shows "py_rfind s sub = int k"
proof -
  from assms have kl: "k \<le> length s" and pk: "prefix sub (drop k s)"
    and nk: "\<forall>j. k < j \<longrightarrow> \<not> occurs_at sub s j"
    by (simp_all add: last_occurrence_iff occurs_at_def)
  have c: "\<forall>j. k < j \<and> j \<le> length s \<longrightarrow> \<not> prefix sub (drop j s)"
    using nk by (auto simp: occurs_at_def)
  have "rfind_at sub s 0 (- 1) = int (0 + k)"
    by (rule rfind_at_last[OF kl pk c])
  then show ?thesis by (simp add: py_rfind_def)
qed

lemma first_occurrence_exists:
  assumes "occurs_at sub s k0" "start \<le> k0"
  shows "\<exists>k. first_occurrence sub s start k"
proof -
  define P where "P k \<longleftrightarrow> start \<le> k \<and> occurs_at sub s k" for k
  have "\<exists>k. P k" using assms by (auto simp: P_def)
  then obtain k where k: "P k" and least: "\<forall>j<k. \<not> P j"
    using exists_least_iff[of P] by blast
  have "\<not> occurs_at sub s j" if "start \<le> j \<and> j < k" for j
    using that least by (simp add: P_def)
  with k have "first_occurrence sub s start k"
    by (simp add: first_occurrence_iff P_def)
  then show ?thesis ..
qed

lemma last_occurrence_exists:
  assumes "occurs_at sub s k0"
  shows "\<exists>k. last_occurrence sub s k"
proof -
  have "\<forall>k. occurs_at sub s k \<longrightarrow> k < Suc (length s)" by (simp add: occurs_at_def)
  with assms obtain k where k: "occurs_at sub s k"
    and greatest: "\<forall>j. occurs_at sub s j \<longrightarrow> j \<le> k"
    using ex_has_greatest_nat[of "occurs_at sub s" k0 "\<lambda>j. j" "Suc (length s)"] by blast
  have "\<not> occurs_at sub s j" if "k < j" for j
  proof
    assume "occurs_at sub s j"
    with greatest have "j \<le> k" by blast
    with that show False by simp
  qed
  with k have "last_occurrence sub s k"
    by (simp add: last_occurrence_iff)
  then show ?thesis ..
qed

lemma py_in_iff: "py_in sub s \<longleftrightarrow> contains sub s"
proof
  assume "py_in sub s"
  then have "py_find s sub 0 \<noteq> - 1" by (simp add: py_in_def)
  then have "\<not> (\<forall>j. 0 \<le> j \<longrightarrow> \<not> occurs_at sub s j)"
    using py_find_none[of 0 sub s] by blast
  then show "contains sub s" by (simp add: contains_iff)
next
  assume "contains sub s"
  then obtain k0 where "occurs_at sub s k0" by (auto simp: contains_iff)
  then obtain k where "first_occurrence sub s 0 k"
    using first_occurrence_exists[of sub s k0 0] by auto
  then have "py_find s sub 0 = int k" by (rule py_find_first)
  then show "py_in sub s" by (simp add: py_in_def)
qed

lemma py_rfind_none:
  assumes "\<not> contains sub s"
  shows "py_rfind s sub = - 1"
proof -
  from assms have "\<forall>k\<le>length s. \<not> prefix sub (drop k s)"
    by (auto simp: contains_iff occurs_at_def)
  then show ?thesis unfolding py_rfind_def by (rule rfind_at_none)
qed

lemma py_find_some_first:
  assumes "py_find s sub start = int k"
  shows "first_occurrence sub s start k"
proof (cases "\<exists>j. start \<le> j \<and> occurs_at sub s j")
  case True
  then obtain k' where k': "first_occurrence sub s start k'"
    using first_occurrence_exists by blast
  then have "py_find s sub start = int k'" by (rule py_find_first)
  with assms have "k = k'" by simp
  with k' show ?thesis by simp
next
  case False
  then have "py_find s sub start = - 1" by (intro py_find_none) blast
  with assms show ?thesis by simp
qed

lemma py_find_neg_none:
  assumes "py_find s sub start = - 1"
  shows "\<forall>j\<in>set [start..<Suc (length s)]. \<not> occurs_at sub s j"
proof (rule ccontr)
  assume "\<not> ?thesis"
  then obtain j where "start \<le> j" "occurs_at sub s j" by auto
  then obtain k where "first_occurrence sub s start k"
    using first_occurrence_exists by blast
  then have "py_find s sub start = int k" by (rule py_find_first)
  with assms show False by simp
qed

lemma py_rfind_some_last:
  assumes "py_rfind s sub = int k"
  shows "last_occurrence sub s k"
proof (cases "contains sub s")
  case True
  then obtain k' where k': "last_occurrence sub s k'"
    using last_occurrence_exists unfolding contains_iff by blast
  then have "py_rfind s sub = int k'" by (rule py_rfind_last)
  with assms have "k = k'" by simp
  with k' show ?thesis by simp
next
  case False
  then have "py_rfind s sub = - 1" by (rule py_rfind_none)
  with assms show ?thesis by simp
qed

lemma first_occurrence_unique:
  assumes "first_occurrence sub s start k" "first_occurrence sub s start k'"
  shows "k = k'"
proof (rule ccontr)
  assume "k \<noteq> k'"
  then consider "k < k'" | "k' < k" by linarith
  then show False
  proof cases
    case 1
    with assms(1) have "start \<le> k \<and> k < k'" by (simp add: first_occurrence_iff)
    with assms show False unfolding first_occurrence_iff by blast
  next
    case 2
    with assms(2) have "start \<le> k' \<and> k' < k" by (simp add: first_occurrence_iff)
    with assms show False unfolding first_occurrence_iff by blast
  qed
qed

lemma last_occurrence_unique:
  assumes "last_occurrence sub s k" "last_occurrence sub s k'"
  shows "k = k'"
proof (rule ccontr)
  assume "k \<noteq> k'"
  then consider "k < k'" | "k' < k" by linarith
  then show False
  proof cases
    case 1
    with assms show False unfolding last_occurrence_iff by blast
  next
    case 2
    with assms show False unfolding last_occurrence_iff by blast
  qed
qed

lemma occurs_at_single: "occurs_at [c] s k \<longleftrightarrow> k < length s \<and> s ! k = c"
proof (cases "k < length s")
  case True
  then have "drop k s = s ! k # drop (Suc k) s" by (simp add: Cons_nth_drop_Suc)
  with True show ?thesis by (auto simp: occurs_at_def)
next
  case False
  then show ?thesis by (auto simp: occurs_at_def dest: prefix_length_le)
qed

lemma occurs_at_length: "occurs_at sub s k \<Longrightarrow> k + length sub \<le> length s"
  unfolding occurs_at_def by (auto dest!: prefix_length_le)

lemma length_fence_json: "length fence_json = 7"
  by (simp add: fence_json_def ustr_def)

lemma length_fence: "length fence = 3"
  by (simp add: fence_def ustr_def)

lemma extract_json_fenced_eq:
  assumes i: "first_occurrence fence_json result 0 i"
    and j: "first_occurrence fence result (i + 7) j"
  shows "extract_json result = strip (take (j - (i + 7)) (drop (i + 7) result))"
proof -
  from i have "occurs_at fence_json result i" by (simp add: first_occurrence_iff)
  then have "contains fence_json result" by (auto simp: contains_iff)
  then have inj: "py_in fence_json result" by (simp add: py_in_iff)
  have fi: "py_find result fence_json 0 = int i" using i by (rule py_find_first)
  have fj: "py_find result fence (i + 7) = int j" using j by (rule py_find_first)
  from j have ij: "i + 7 \<le> j" and jl: "j \<le> length result"
    by (simp_all add: first_occurrence_iff occurs_at_def)
  have "py_slice result (int (i + 7)) (int j) = take (j - (i + 7)) (drop (i + 7) result)"
    using ij jl by (simp add: py_slice_def slice_index_def Let_def min_def del: of_nat_add)
  then have "py_slice result (int i + 7) (int j) = take (j - (i + 7)) (drop (i + 7) result)"
    by simp
  moreover have "nat (int i + 7) = i + 7" by simp
  ultimately show ?thesis
    using inj fi fj by (simp add: extract_json_def Let_def)
qed

lemmas str_eval = ustr_def fence_json_def fence_def lbrace_def rbrace_def py_in_def py_find_def
  py_rfind_def py_slice_def slice_index_def strip_def is_space_def

section \<open>Properties of the JSON extraction\<close>

text \<open>
  Claim C4.  When the response contains a \<open>```json\<close> marker and, at or after the end of
  a marker, a closing \<open>```\<close> fence, the extraction returns the whitespace-trimmed text
  between the end of the first \<open>```json\<close> marker and the next \<open>```\<close> after it.
\<close>

theorem extract_json_fenced:
  assumes "occurs_at fence_json result i0" "occurs_at fence result j0" "i0 + 7 \<le> j0"
  shows "\<exists>i j. first_occurrence fence_json result 0 i \<and> first_occurrence fence result (i + 7) j \<and>
           extract_json result = strip (take (j - (i + 7)) (drop (i + 7) result))"
proof -
  obtain i where i: "first_occurrence fence_json result 0 i"
    using first_occurrence_exists[OF assms(1), of 0] by auto
  have "i \<le> i0"
  proof (rule ccontr)
    assume "\<not> i \<le> i0"
    then have "0 \<le> i0 \<and> i0 < i" by simp
    with i assms(1) show False unfolding first_occurrence_iff by blast
  qed
  with assms(3) have "i + 7 \<le> j0" by simp
  then obtain j where j: "first_occurrence fence result (i + 7) j"
    using first_occurrence_exists[OF assms(2)] by auto
  from i j have "extract_json result = strip (take (j - (i + 7)) (drop (i + 7) result))"
    by (rule extract_json_fenced_eq)
  with i j show ?thesis by blast
qed

theorem extract_json_fenced_witness:
  \<open>occurs_at fence_json (ustr ''prefix ```json {"a":1} ``` suffix'') 7 \<and>
   occurs_at fence (ustr ''prefix ```json {"a":1} ``` suffix'') 23 \<and> (7::nat) + 7 \<le> 23 \<and>
   extract_json (ustr ''prefix ```json {"a":1} ``` suffix'') = ustr ''{"a":1}''\<close>
proof -
  let ?s = \<open>ustr ''prefix ```json {"a":1} ``` suffix''\<close>
  have f7: "first_occurrence fence_json ?s 0 7"
    by (rule py_find_some_first) (simp add: str_eval)
  have f23: "first_occurrence fence ?s (7 + 7) 23"
    by (rule py_find_some_first) (simp add: str_eval)
  have a: "occurs_at fence_json ?s 7" using f7 by (simp add: first_occurrence_iff)
  have b: "occurs_at fence ?s 23" using f23 by (simp add: first_occurrence_iff)
  have c: "(7::nat) + 7 \<le> 23" by simp
  from extract_json_fenced[OF a b c] obtain i j
    where i: "first_occurrence fence_json ?s 0 i"
      and j: "first_occurrence fence ?s (i + 7) j"
      and e: "extract_json ?s = strip (take (j - (i + 7)) (drop (i + 7) ?s))"
    by blast
  have i7: "i = 7" using i f7 by (rule first_occurrence_unique)
  have j23: "j = 23" using j f23 unfolding i7 by (rule first_occurrence_unique)
  have "extract_json ?s = ustr ''{\"a\":1}''"
    unfolding e i7 j23 by (simp add: str_eval)
  with a b c show ?thesis by blast
qed

text \<open>
  Claim C9.  When the response contains a \<open>```json\<close> marker and no \<open>```\<close> occurs in the
  text after the first marker, the failed search yields \<open>-1\<close> and the extraction
  returns the whitespace-trimmed text from just after the marker up to, but excluding,
  the last character of the response.
\<close>

theorem extract_json_unclosed_fence:
  assumes i: "first_occurrence fence_json result 0 i"
    and none: "\<not> contains fence (drop (i + 7) result)"
  shows "extract_json result = strip (butlast (drop (i + 7) result))"
proof -
  from i have oi: "occurs_at fence_json result i" by (simp add: first_occurrence_iff)
  then have "contains fence_json result" by (auto simp: contains_iff)
  then have inj: "py_in fence_json result" by (simp add: py_in_iff)
  have fi: "py_find result fence_json 0 = int i" using i by (rule py_find_first)
  have "\<forall>k. i + 7 \<le> k \<longrightarrow> \<not> occurs_at fence result k"
  proof (intro allI impI notI)
    fix k assume k: "i + 7 \<le> k" and "occurs_at fence result k"
    then have kl: "k \<le> length result" and pk: "prefix fence (drop k result)"
      by (simp_all add: occurs_at_def)
    from k have "k - (i + 7) + (i + 7) = k" by simp
    then have "drop (k - (i + 7)) (drop (i + 7) result) = drop k result"
      by (simp only: drop_drop)
    with pk kl k have "occurs_at fence (drop (i + 7) result) (k - (i + 7))"
      by (simp add: occurs_at_def)
    with none show False by (auto simp: contains_iff)
  qed
  then have fj: "py_find result fence (i + 7) = - 1" by (rule py_find_none)
  from occurs_at_length[OF oi] have il: "i + 7 \<le> length result"
    by (simp add: length_fence_json)
  have "py_slice result (int (i + 7)) (- 1) = take (length result - 1 - (i + 7)) (drop (i + 7) result)"
    using il by (simp add: py_slice_def slice_index_def Let_def min_def nat_diff_distrib' del: of_nat_add)
  then have "py_slice result (int i + 7) (- 1) = take (length result - 1 - (i + 7)) (drop (i + 7) result)"
    by simp
  also have "\<dots> = butlast (drop (i + 7) result)"
    by (simp add: butlast_conv_take)
  finally have "py_slice result (int i + 7) (- 1) = butlast (drop (i + 7) result)" .
  moreover have "nat (int i + 7) = i + 7" by simp
  ultimately show ?thesis
    using inj fi fj by (simp add: extract_json_def Let_def)
qed

theorem extract_json_unclosed_fence_witness:
  \<open>first_occurrence fence_json (ustr ''```json {"a":1}'') 0 0 \<and>
   \<not> contains fence (drop (0 + 7) (ustr ''```json {"a":1}'')) \<and>
   extract_json (ustr ''```json {"a":1}'') = ustr ''{"a":1''\<close>
proof -
  let ?s = \<open>ustr ''```json {"a":1}''\<close>
  have a: "first_occurrence fence_json ?s 0 0"
    by (rule py_find_some_first) (simp add: str_eval)
  have b: "\<not> contains fence (drop (0 + 7) ?s)"
    unfolding py_in_iff[symmetric] by (simp add: str_eval)
  have "extract_json ?s = ustr ''{\"a\":1''"
    unfolding extract_json_unclosed_fence[OF a b] by (simp add: str_eval)
  with a b show ?thesis by blast
qed

lemma extract_json_brace_eq:
  assumes nf: "\<not> contains fence_json result"
    and i: "first_occurrence lbrace result 0 i"
    and j: "last_occurrence rbrace result j"
  shows "extract_json result = take (Suc j - i) (drop i result)"
proof -
  from nf have ninj: "\<not> py_in fence_json result" by (simp add: py_in_iff)
  from i have oi: "occurs_at lbrace result i" by (simp add: first_occurrence_iff)
  from j have oj: "occurs_at rbrace result j" by (simp add: last_occurrence_iff)
  have inl: "py_in lbrace result" using oi by (auto simp: py_in_iff contains_iff)
  have inr: "py_in rbrace result" using oj by (auto simp: py_in_iff contains_iff)
  have fi: "py_find result lbrace 0 = int i" using i by (rule py_find_first)
  have fj: "py_rfind result rbrace = int j" using j by (rule py_rfind_last)
  have il: "i < length result" using occurs_at_length[OF oi] by (simp add: lbrace_def ustr_def)
  have jl: "j < length result" using occurs_at_length[OF oj] by (simp add: rbrace_def ustr_def)
  have "py_slice result (int i) (int j + 1) = take (Suc j - i) (drop i result)"
    using il jl by (simp add: py_slice_def slice_index_def Let_def min_def nat_add_distrib)
  then show ?thesis
    using ninj inl inr fi fj by (simp add: extract_json_def Let_def)
qed

text \<open>
  Claim C3.  As stated the claim fails when the last \<open>}\<close> stands before the first \<open>{\<close>: for
  the response \<open>} {\<close> the slice is empty, and holds neither brace.
\<close>

theorem extract_json_brace_degenerate_counterexample:
  "\<not> contains fence_json (ustr ''} {'') \<and> contains lbrace (ustr ''} {'') \<and>
   contains rbrace (ustr ''} {'') \<and> first_occurrence lbrace (ustr ''} {'') 0 2 \<and>
   last_occurrence rbrace (ustr ''} {'') 0 \<and> extract_json (ustr ''} {'') = []"
proof -
  let ?s = "ustr ''} {''"
  have a: "\<not> contains fence_json ?s"
    unfolding py_in_iff[symmetric] by (simp add: str_eval)
  have b: "contains lbrace ?s"
    unfolding py_in_iff[symmetric] by (simp add: str_eval)
  have c: "contains rbrace ?s"
    unfolding py_in_iff[symmetric] by (simp add: str_eval)
  have f: "first_occurrence lbrace ?s 0 2"
    by (rule py_find_some_first) (simp add: str_eval)
  have l: "last_occurrence rbrace ?s 0"
    by (rule py_rfind_some_last) (simp add: str_eval)
  have e: "extract_json ?s = []"
    by (simp add: extract_json_def str_eval)
  from a b c f l e show ?thesis by blast
qed

text \<open>
  Claim C3 (amended).  When the response contains no \<open>```json\<close> marker and some \<open>{\<close> stands
  before some \<open>}\<close>, the extraction returns exactly the characters from the first \<open>{\<close>
  (index \<open>i\<close>) to the last \<open>}\<close> (index \<open>j\<close>) inclusive: the greedy span, which begins with
  \<open>{\<close>, ends with \<open>}\<close> and has \<open>j - i + 1\<close> characters.
\<close>

theorem extract_json_brace_span:
  assumes "\<not> contains fence_json result"
    and "occurs_at lbrace result a" "occurs_at rbrace result b" "a < b"
  shows "\<exists>i j. first_occurrence lbrace result 0 i \<and> last_occurrence rbrace result j \<and> i < j \<and>
           extract_json result = take (Suc j - i) (drop i result) \<and>
           result = take i result @ extract_json result @ drop (Suc j) result \<and>
           length (extract_json result) = Suc (j - i) \<and>
           hd (extract_json result) = 123 \<and> last (extract_json result) = 125"
proof -
  obtain i where i: "first_occurrence lbrace result 0 i"
    using first_occurrence_exists[OF assms(2), of 0] by auto
  obtain j where j: "last_occurrence rbrace result j"
    using last_occurrence_exists[OF assms(3)] by auto
  have ia: "i \<le> a"
  proof (rule ccontr)
    assume "\<not> i \<le> a"
    then have "0 \<le> a \<and> a < i" by simp
    with i assms(2) show False unfolding first_occurrence_iff by blast
  qed
  have bj: "b \<le> j"
  proof (rule ccontr)
    assume "\<not> b \<le> j"
    then have "j < b" by simp
    with j assms(3) show False unfolding last_occurrence_iff by blast
  qed
  from ia bj assms(4) have ij: "i < j" by simp
  from i have oi: "occurs_at [123] result i"
    by (simp add: first_occurrence_iff lbrace_def ustr_def)
  from j have oj: "occurs_at [125] result j"
    by (simp add: last_occurrence_iff rbrace_def ustr_def)
  from oi have il: "i < length result" and ri: "result ! i = 123"
    by (simp_all add: occurs_at_single)
  from oj have jl: "j < length result" and rj: "result ! j = 125"
    by (simp_all add: occurs_at_single)
  have e: "extract_json result = take (Suc j - i) (drop i result)"
    using assms(1) i j by (rule extract_json_brace_eq)
  have len: "length (extract_json result) = Suc (j - i)"
    using ij jl by (simp add: e)
  have dec: "result = take i result @ extract_json result @ drop (Suc j) result"
  proof -
    have "drop i result = take (Suc j - i) (drop i result) @ drop (Suc j - i) (drop i result)"
      by (rule append_take_drop_id[symmetric])
    moreover have "drop (Suc j - i) (drop i result) = drop (Suc j) result"
      using ij by simp
    ultimately have "drop i result = extract_json result @ drop (Suc j) result"
      by (simp only: e)
    then have "take i result @ drop i result =
        take i result @ extract_json result @ drop (Suc j) result" by simp
    then show ?thesis by simp
  qed
  have ne: "extract_json result \<noteq> []" using len by auto
  have h: "hd (extract_json result) = 123"
    using il ij ri by (simp add: e hd_drop_conv_nth hd_conv_nth)
  have "last (extract_json result) = extract_json result ! (j - i)"
    using ne len by (simp add: last_conv_nth)
  also have "\<dots> = result ! j"
    using ij jl by (simp add: e)
  finally have la: "last (extract_json result) = 125" using rj by simp
  from i j ij e dec len h la show ?thesis by blast
qed

theorem extract_json_brace_span_witness:
  \<open>\<not> contains fence_json (ustr ''noise {"a":1} more {"b":2} noise'') \<and>
   occurs_at lbrace (ustr ''noise {"a":1} more {"b":2} noise'') 19 \<and>
   occurs_at rbrace (ustr ''noise {"a":1} more {"b":2} noise'') 25 \<and>
   extract_json (ustr ''noise {"a":1} more {"b":2} noise'') = ustr ''{"a":1} more {"b":2}''\<close>
proof -
  let ?s = \<open>ustr ''noise {"a":1} more {"b":2} noise''\<close>
  have a: "\<not> contains fence_json ?s"
    unfolding py_in_iff[symmetric] by (simp add: str_eval)
  have b: "occurs_at lbrace ?s 19" by (simp add: occurs_at_def str_eval)
  have c: "occurs_at rbrace ?s 25" by (simp add: occurs_at_def str_eval)
  have d: "(19::nat) < 25" by simp
  have f6: "first_occurrence lbrace ?s 0 6"
    by (rule py_find_some_first) (simp add: str_eval)
  have l25: "last_occurrence rbrace ?s 25"
    by (rule py_rfind_some_last) (simp add: str_eval)
  from extract_json_brace_span[OF a b c d] obtain i j
    where i: "first_occurrence lbrace ?s 0 i"
      and j: "last_occurrence rbrace ?s j"
      and e: "extract_json ?s = take (Suc j - i) (drop i ?s)"
    by blast
  have i6: "i = 6" using i f6 by (rule first_occurrence_unique)
  have j25: "j = 25" using j l25 by (rule last_occurrence_unique)
  have "extract_json ?s = ustr ''{\"a\":1} more {\"b\":2}''"
    unfolding e i6 j25 by (simp add: str_eval)
  with a b c show ?thesis by blast
qed

section \<open>Running blocks of statements\<close>

lemma bind_io_lift_Inr: "bind_io (lift_io (Inr x)) f = f x"
  by (cases "f x") (simp add: bind_io_def lift_io_def)

lemma bind_io_lift_Inl: "bind_io (lift_io (Inl e)) f = ([], Inl e)"
  by (simp add: bind_io_def lift_io_def)

lemma bind_io_return: "bind_io (return_io x) f = f x"
  by (cases "f x") (simp add: bind_io_def return_io_def)

lemma bind_io_show: "bind_io (show_io ev) f = (ev # fst (f ()), snd (f ()))"
  by (cases "f ()") (simp add: bind_io_def show_io_def)

lemmas bind_io_simps = bind_io_lift_Inr bind_io_lift_Inl bind_io_return bind_io_show

lemma bind_io_Inr:
  assumes "bind_io m f = (evs, Inr y)"
  obtains evs1 x evs2 where "m = (evs1, Inr x)" "f x = (evs2, Inr y)" "evs = evs1 @ evs2"
proof -
  obtain evs1 r where m: "m = (evs1, r)" by (cases m)
  show ?thesis
  proof (cases r)
    case (Inl e)
    with assms m show ?thesis by (simp add: bind_io_def)
  next
    case (Inr x)
    obtain evs2 r2 where f: "f x = (evs2, r2)" by (cases "f x")
    with assms m Inr have "evs = evs1 @ evs2" "r2 = Inr y" by (simp_all add: bind_io_def)
    with m Inr f that show ?thesis by blast
  qed
qed

lemma lift_io_Inr: "lift_io r = (evs, Inr x) \<longleftrightarrow> evs = [] \<and> r = Inr x"
  by (auto simp: lift_io_def)

section \<open>Properties of the length validation\<close>

lemma py_len_error: "py_len v = Inl e \<Longrightarrow> e = TypeError"
  by (cases v) (simp_all add: py_len_def)

lemma py_take_len:
  assumes "py_take v k = Inr v'" "py_len v = Inr n"
  shows "py_len v' = Inr (min k n)"
  using assms by (cases v) (auto simp: py_take_def py_len_def)

lemma py_take_error: "py_take v k = Inl e \<Longrightarrow> e = TypeError"
  by (cases v) (simp_all add: py_take_def)

lemma vocabulary_mismatch_lens:
  assumes "py_len ws = Inr a" "py_len wm = Inr b" "py_len wx = Inr c"
  shows "vocabulary_mismatch ws wm wx = ([], Inr (\<not> (a = b \<and> a = c)))"
  using assms by (simp add: vocabulary_mismatch_def bind_io_simps return_io_def)

lemma vocabulary_mismatch_Inr:
  assumes "vocabulary_mismatch ws wm wx = (evs, Inr m)"
  shows "\<exists>a b. py_len ws = Inr a \<and> py_len wm = Inr b \<and>
           (if a \<noteq> b then m else (\<exists>c. py_len wx = Inr c \<and> m = (a \<noteq> c)))"
proof -
  obtain ra where ra: "py_len ws = ra" by simp
  obtain rb where rb: "py_len wm = rb" by simp
  obtain rc where rc: "py_len wx = rc" by simp
  show ?thesis
    using assms ra rb rc
    by (cases ra; cases rb; cases rc)
       (auto simp: vocabulary_mismatch_def bind_io_simps return_io_def split: if_splits)
qed

lemma fix_vocabulary_lens:
  assumes "py_len ws = Inr a" "py_len wm = Inr b" "py_len wx = Inr c"
  shows "fix_vocabulary ws wm wx =
    (if a = b \<and> a = c then ([], Inr (ws, wm, wx))
     else bind_io (show_io (Warning_vocabulary a b c)) (\<lambda>_.
          bind_io (lift_io (py_take ws (min a (min b c)))) (\<lambda>ws'.
          bind_io (lift_io (py_take wm (min a (min b c)))) (\<lambda>wm'.
          bind_io (lift_io (py_take wx (min a (min b c)))) (\<lambda>wx'.
          bind_io (show_io (Info_aligned (min a (min b c)))) (\<lambda>_.
          return_io (ws', wm', wx')))))))"
  unfolding fix_vocabulary_def vocabulary_mismatch_lens[OF assms] assms
  by (simp only: bind_io_lift_Inr Let_def) (simp add: bind_io_def return_io_def)

lemma fix_vocabulary_Inr_lens:
  assumes "fix_vocabulary ws wm wx = (evs, Inr r)"
  shows "\<exists>a b c. py_len ws = Inr a \<and> py_len wm = Inr b \<and> py_len wx = Inr c"
proof -
  from assms obtain evs1 m evs2 where vm: "vocabulary_mismatch ws wm wx = (evs1, Inr m)"
    and rest: "(if m then
       bind_io (lift_io (py_len ws)) (\<lambda>a.
       bind_io (lift_io (py_len wm)) (\<lambda>b.
       bind_io (lift_io (py_len wx)) (\<lambda>c.
       bind_io (show_io (Warning_vocabulary a b c)) (\<lambda>_.
       let min_length = min a (min b c) in
       bind_io (lift_io (py_take ws min_length)) (\<lambda>ws'.
       bind_io (lift_io (py_take wm min_length)) (\<lambda>wm'.
       bind_io (lift_io (py_take wx min_length)) (\<lambda>wx'.
       bind_io (show_io (Info_aligned min_length)) (\<lambda>_.
       return_io (ws', wm', wx')))))))))
     else return_io (ws, wm, wx)) = (evs2, Inr r)"
    unfolding fix_vocabulary_def by (rule bind_io_Inr)
  from vocabulary_mismatch_Inr[OF vm] obtain a b where ab: "py_len ws = Inr a" "py_len wm = Inr b"
    and m: "if a \<noteq> b then m else (\<exists>c. py_len wx = Inr c \<and> m = (a \<noteq> c))"
    by blast
  show ?thesis
  proof (cases "a = b")
    case True
    with m ab show ?thesis by auto
  next
    case False
    with m have m by simp
    with rest ab have "bind_io (lift_io (py_len wx)) (\<lambda>c.
       bind_io (show_io (Warning_vocabulary a b c)) (\<lambda>_.
       let min_length = min a (min b c) in
       bind_io (lift_io (py_take ws min_length)) (\<lambda>ws'.
       bind_io (lift_io (py_take wm min_length)) (\<lambda>wm'.
       bind_io (lift_io (py_take wx min_length)) (\<lambda>wx'.
       bind_io (show_io (Info_aligned min_length)) (\<lambda>_.
       return_io (ws', wm', wx'))))))) = (evs2, Inr r)"
      by (simp only: if_True bind_io_lift_Inr)
    then obtain c where "py_len wx = Inr c"
      by (rule bind_io_Inr) (simp add: lift_io_Inr)
    with ab show ?thesis by blast
  qed
qed

lemma fix_vocabulary_aligned:
  assumes "fix_vocabulary ws wm wx = (evs, Inr (ws', wm', wx'))"
  shows "\<exists>k. py_len ws' = Inr k \<and> py_len wm' = Inr k \<and> py_len wx' = Inr k"
proof -
  from fix_vocabulary_Inr_lens[OF assms] obtain a b c
    where abc: "py_len ws = Inr a" "py_len wm = Inr b" "py_len wx = Inr c" by blast
  define k where "k = min a (min b c)"
  note nf = assms[unfolded fix_vocabulary_lens[OF abc], folded k_def]
  show ?thesis
  proof (cases "a = b \<and> a = c")
    case True
    with nf abc show ?thesis by simp
  next
    case False
    with nf have "bind_io (show_io (Warning_vocabulary a b c)) (\<lambda>_.
          bind_io (lift_io (py_take ws k)) (\<lambda>ws'.
          bind_io (lift_io (py_take wm k)) (\<lambda>wm'.
          bind_io (lift_io (py_take wx k)) (\<lambda>wx'.
          bind_io (show_io (Info_aligned k)) (\<lambda>_.
          return_io (ws', wm', wx')))))) = (evs, Inr (ws', wm', wx'))"
      by (simp only: if_False)
    then have t: "py_take ws k = Inr ws'" "py_take wm k = Inr wm'" "py_take wx k = Inr wx'"
      by (auto elim!: bind_io_Inr simp: lift_io_Inr return_io_def)
    have "py_len ws' = Inr k" "py_len wm' = Inr k" "py_len wx' = Inr k"
      using py_take_len[OF t(1) abc(1)] py_take_len[OF t(2) abc(2)] py_take_len[OF t(3) abc(3)]
      by (simp_all add: k_def)
    then show ?thesis by blast
  qed
qed

lemma fix_sentences_aligned:
  assumes "fix_sentences ss ts = (evs, Inr (ss', ts'))"
  shows "\<exists>n. py_len ss' = Inr n \<and> py_len ts' = Inr n"
proof -
  obtain ra where ra: "py_len ss = ra" by simp
  obtain rb where rb: "py_len ts = rb" by simp
  from assms ra rb obtain a b where ab: "py_len ss = Inr a" "py_len ts = Inr b"
    by (cases ra; cases rb) (auto simp: fix_sentences_def bind_io_simps)
  show ?thesis
  proof (cases "a = b")
    case True
    with assms ab show ?thesis by (simp add: fix_sentences_def bind_io_simps return_io_def)
  next
    case False
    define k where "k = min a b"
    obtain ta where ta: "py_take ss k = ta" by simp
    obtain tb where tb: "py_take ts k = tb" by simp
    from assms ab False ta tb have t: "py_take ss k = Inr ss'" "py_take ts k = Inr ts'"
      by (cases ta; cases tb; simp add: fix_sentences_def bind_io_simps Let_def k_def return_io_def)+
    have "py_len ss' = Inr k" "py_len ts' = Inr k"
      using py_take_len[OF t(1) ab(1)] py_take_len[OF t(2) ab(2)] by (simp_all add: k_def)
    then show ?thesis by blast
  qed
qed

lemma fix_vocabulary_lists:
  assumes "\<not> (length ws = length wm \<and> length ws = length wx)"
  shows "fix_vocabulary (PyList ws) (PyList wm) (PyList wx) =
           ([Warning_vocabulary (length ws) (length wm) (length wx),
             Info_aligned (min (length ws) (min (length wm) (length wx)))],
            Inr (PyList (take (min (length ws) (min (length wm) (length wx))) ws),
                 PyList (take (min (length ws) (min (length wm) (length wx))) wm),
                 PyList (take (min (length ws) (min (length wm) (length wx))) wx)))"
proof -
  have l: "py_len (PyList ws) = Inr (length ws)" "py_len (PyList wm) = Inr (length wm)"
    "py_len (PyList wx) = Inr (length wx)" by (simp_all add: py_len_def)
  show ?thesis
    unfolding fix_vocabulary_lens[OF l] using assms
    by (simp add: bind_io_def lift_io_def show_io_def return_io_def py_take_def)
qed

text \<open>
  Claim C2.  When the three vocabulary lists do not all have the same length, the validator
  shows a warning with the three original lengths, cuts each list down to its first
  \<open>min\<close> elements (the shortest of the three lengths), shows the corrected length and
  goes on without raising.
\<close>

theorem fix_vocabulary_truncates:
  assumes "\<not> (length ws = length wm \<and> length ws = length wx)"
  shows "fix_vocabulary (PyList ws) (PyList wm) (PyList wx) =
           ([Warning_vocabulary (length ws) (length wm) (length wx),
             Info_aligned (min (length ws) (min (length wm) (length wx)))],
            Inr (PyList (take (min (length ws) (min (length wm) (length wx))) ws),
                 PyList (take (min (length ws) (min (length wm) (length wx))) wm),
                 PyList (take (min (length ws) (min (length wm) (length wx))) wx)))"
  using assms by (rule fix_vocabulary_lists)

theorem fix_vocabulary_truncates_witness:
  "fix_vocabulary
     (PyList [PyStr (ustr ''w1''), PyStr (ustr ''w2''), PyStr (ustr ''w3''), PyStr (ustr ''w4''),
              PyStr (ustr ''w5'')])
     (PyList [PyStr (ustr ''m1''), PyStr (ustr ''m2''), PyStr (ustr ''m3'')])
     (PyList [PyStr (ustr ''s1''), PyStr (ustr ''s2''), PyStr (ustr ''s3''), PyStr (ustr ''s4''),
              PyStr (ustr ''s5'')]) =
   ([Warning_vocabulary 5 3 5, Info_aligned 3],
    Inr (PyList [PyStr (ustr ''w1''), PyStr (ustr ''w2''), PyStr (ustr ''w3'')],
         PyList [PyStr (ustr ''m1''), PyStr (ustr ''m2''), PyStr (ustr ''m3'')],
         PyList [PyStr (ustr ''s1''), PyStr (ustr ''s2''), PyStr (ustr ''s3'')]))"
  using fix_vocabulary_truncates[of
      "[PyStr (ustr ''w1''), PyStr (ustr ''w2''), PyStr (ustr ''w3''), PyStr (ustr ''w4''),
        PyStr (ustr ''w5'')]"
      "[PyStr (ustr ''m1''), PyStr (ustr ''m2''), PyStr (ustr ''m3'')]"
      "[PyStr (ustr ''s1''), PyStr (ustr ''s2''), PyStr (ustr ''s3''), PyStr (ustr ''s4''),
        PyStr (ustr ''s5'')]"]
  by simp

section \<open>Properties of the difficulty scorer\<close>

lemma split_from_empty_iff:
  "split_from cur s = [] \<longleftrightarrow> cur = [] \<and> (\<forall>c\<in>set s. is_space c)"
  by (induction s arbitrary: cur) auto

lemma str_split_empty_iff: "str_split s = [] \<longleftrightarrow> (\<forall>c\<in>set s. is_space c)"
  by (simp add: str_split_def split_from_empty_iff)

lemma total_tokens_zero_iff:
  "total_tokens S = 0 \<longleftrightarrow> (\<forall>s\<in>set S. \<forall>c\<in>set s. is_space c)"
  by (induction S) (simp_all add: total_tokens_def str_split_empty_iff)

lemma count_words_strs:
  "count_words (map PyStr S) t c = Inr (t + total_tokens S, c + long_tokens S)"
  by (induction S arbitrary: t c) (simp_all add: total_tokens_def long_tokens_def py_split_def)

lemma calculate_difficulty_strs:
  "calculate_difficulty (PyList (map PyStr S)) =
     (if S = [] \<or> total_tokens S = 0 then Inr (ustr ''A1'')
      else Inr (classify (float_div (total_tokens S) (length S))
                  (float_div (long_tokens S) (total_tokens S))))"
  by (simp add: calculate_difficulty_def truthy_def py_iter_def count_words_strs py_len_def
      py_truediv_def)

lemmas io_eval = bind_io_def lift_io_def show_io_def return_io_def py_get_def py_len_def
  py_take_def Let_def

lemmas score_eval = calculate_difficulty_def truthy_def py_iter_def py_split_def str_split_def
  py_len_def py_truediv_def float_div_def round_to_def bit_length.simps round_half_even_def classify_def
  lit_0_1_def lit_0_15_def lit_0_2_def lit_0_25_def lit_0_3_def is_space_def Let_def

text \<open>
  Claim C6.  The scorer returns \<open>"A1"\<close> for the empty list of sentences, and for every list of
  sentences with no whitespace-delimited token at all, which are exactly the lists
  whose sentences consist of whitespace only; it raises nothing on them.
\<close>

theorem no_tokens_is_A1:
  "calculate_difficulty (PyList []) = Inr (ustr ''A1'') \<and>
   (total_tokens S = 0 \<longrightarrow> calculate_difficulty (PyList (map PyStr S)) = Inr (ustr ''A1'')) \<and>
   (total_tokens S = 0 \<longleftrightarrow> (\<forall>s\<in>set S. \<forall>c\<in>set s. is_space c))"
proof (intro conjI)
  show "calculate_difficulty (PyList []) = Inr (ustr ''A1'')"
    by (simp add: calculate_difficulty_def truthy_def)
  show "total_tokens S = 0 \<longrightarrow> calculate_difficulty (PyList (map PyStr S)) = Inr (ustr ''A1'')"
    by (simp add: calculate_difficulty_strs)
  show "total_tokens S = 0 \<longleftrightarrow> (\<forall>s\<in>set S. \<forall>c\<in>set s. is_space c)"
    by (rule total_tokens_zero_iff)
qed

theorem no_tokens_is_A1_witness:
  "total_tokens [[], [32, 9]] = 0 \<and>
   calculate_difficulty (PyList (map PyStr [[], [32, 9]])) = Inr (ustr ''A1'')"
proof -
  have ws: "\<forall>s\<in>set [[], [32, 9::nat]]. \<forall>c\<in>set s. is_space c"
    by (simp add: is_space_def)
  note inst = no_tokens_is_A1[of "[[], [32, 9]]"]
  have z: "total_tokens [[], [32, 9]] = 0"
    using inst[THEN conjunct2, THEN conjunct2] ws by (rule iffD2)
  have "calculate_difficulty (PyList (map PyStr [[], [32, 9]])) = Inr (ustr ''A1'')"
    using inst[THEN conjunct2, THEN conjunct1] z by (rule mp)
  with z show ?thesis by (rule conjI)
qed

subsection \<open>Binary64 division against exact division\<close>

lemma bit_length_bounds:
  "0 < n \<Longrightarrow> 2 ^ (bit_length n - 1) \<le> n \<and> n < 2 ^ bit_length n"
proof (induction n rule: bit_length.induct)
  case (1 n)
  show ?case
  proof (cases "n div 2 = 0")
    case True
    with "1.prems" have "n = 1" by presburger
    then show ?thesis by (simp add: bit_length.simps)
  next
    case False
    then have pos: "0 < n div 2" by simp
    from "1.prems" have n0: "n \<noteq> 0" by simp
    from "1.IH"[OF n0 pos] have lo: "2 ^ (bit_length (n div 2) - 1) \<le> n div 2"
      and hi: "n div 2 < 2 ^ bit_length (n div 2)" by simp_all
    have bl: "bit_length n = Suc (bit_length (n div 2))"
      using n0 by (subst bit_length.simps) simp
    have blpos: "0 < bit_length (n div 2)"
      using pos by (subst bit_length.simps) simp
    have "(2::nat) ^ bit_length (n div 2) = 2 * 2 ^ (bit_length (n div 2) - 1)"
      using blpos by (cases "bit_length (n div 2)") simp_all
    with lo have "2 ^ bit_length (n div 2) \<le> 2 * (n div 2)" by simp
    also have "\<dots> \<le> n" by simp
    finally have a: "2 ^ (bit_length n - 1) \<le> n" by (simp add: bl)
    from hi have "n div 2 + 1 \<le> 2 ^ bit_length (n div 2)" by simp
    then have "2 * (n div 2 + 1) \<le> 2 * 2 ^ bit_length (n div 2)" by simp
    moreover have "n < 2 * (n div 2 + 1)" by presburger
    ultimately have b: "n < 2 ^ bit_length n" by (simp add: bl)
    from a b show ?thesis ..
  qed
qed

lemma round_half_even_of_int: "round_half_even (of_int k) = k"
  by (simp add: round_half_even_def)

lemma round_half_even_error: "\<bar>of_int (round_half_even x) - x\<bar> \<le> 1 / 2"
  unfolding round_half_even_def Let_def
  by (auto simp: abs_le_iff)

lemma round_half_even_range:
  "\<lfloor>x\<rfloor> \<le> round_half_even x \<and> round_half_even x \<le> \<lfloor>x\<rfloor> + 1"
  by (simp add: round_half_even_def Let_def)

lemma round_half_even_mono:
  assumes "x \<le> y"
  shows "round_half_even x \<le> round_half_even y"
proof (cases "\<lfloor>x\<rfloor> = \<lfloor>y\<rfloor>")
  case True
  then have "x - of_int \<lfloor>x\<rfloor> \<le> y - of_int \<lfloor>y\<rfloor>" using assms by simp
  with True show ?thesis
    by (auto simp: round_half_even_def Let_def)
next
  case False
  with assms have "\<lfloor>x\<rfloor> < \<lfloor>y\<rfloor>" by (simp add: floor_mono order.strict_iff_order)
  then have "\<lfloor>x\<rfloor> + 1 \<le> \<lfloor>y\<rfloor>" by simp
  with round_half_even_range[of x] round_half_even_range[of y] show ?thesis by linarith
qed

lemma pow2_pos: "0 < (2::real) powi e"
  by simp

lemma pow2_split: "(2::real) powi e = 2 powi 52 * 2 powi (e - 52)"
proof -
  have "(2::real) powi (52 + (e - 52)) = 2 powi 52 * 2 powi (e - 52)"
    by (rule power_int_add) simp
  then show ?thesis by simp
qed

lemma pow2_succ: "(2::real) powi (e + 1) = 2 powi 53 * 2 powi (e - 52)"
proof -
  have "(2::real) powi (53 + (e - 52)) = 2 powi 53 * 2 powi (e - 52)"
    by (rule power_int_add) simp
  then show ?thesis by (simp add: algebra_simps)
qed

lemma pow2_half: "(2::real) powi (e - 52) / 2 = 2 powi e / 2 ^ 53"
proof -
  have "(2::real) powi e = 2 ^ 52 * 2 powi (e - 52)" using pow2_split[of e] by simp
  then show ?thesis by simp
qed

lemma pow2_less_imp: "(2::real) powi m < 2 powi n \<Longrightarrow> m < n"
proof (rule ccontr)
  assume a: "(2::real) powi m < 2 powi n" and "\<not> m < n"
  then have "n \<le> m" by simp
  then have "(2::real) powi n \<le> 2 powi m" by (rule power_int_increasing) simp
  with a show False by simp
qed

lemma round_to_lower:
  assumes "2 powi e \<le> q"
  shows "2 powi e \<le> round_to q e"
proof -
  define u where "u = (2::real) powi (e - 52)"
  have u: "0 < u" by (simp add: u_def)
  have "2 powi e = 2 ^ 52 * u" using pow2_split[of e] by (simp add: u_def)
  with assms have "2 ^ 52 * u \<le> q" by simp
  then have "2 ^ 52 \<le> q / u" using u by (simp add: pos_le_divide_eq)
  then have "of_int (2 ^ 52) \<le> q / u" by simp
  then have "round_half_even (of_int (2 ^ 52)) \<le> round_half_even (q / u)"
    by (rule round_half_even_mono)
  then have "2 ^ 52 \<le> round_half_even (q / u)"
    by (simp only: round_half_even_of_int)
  then have "(2::real) ^ 52 \<le> of_int (round_half_even (q / u))"
    by (metis of_int_le_iff of_int_numeral of_int_power)
  then have "2 ^ 52 * u \<le> of_int (round_half_even (q / u)) * u"
    using u by (simp add: mult_right_mono)
  with \<open>2 powi e = 2 ^ 52 * u\<close> show ?thesis
    by (simp add: round_to_def Let_def u_def)
qed

lemma round_to_upper:
  assumes "q \<le> 2 powi (e + 1)"
  shows "round_to q e \<le> 2 powi (e + 1)"
proof -
  define u where "u = (2::real) powi (e - 52)"
  have u: "0 < u" by (simp add: u_def)
  have p: "2 powi (e + 1) = 2 ^ 53 * u" using pow2_succ[of e] by (simp add: u_def)
  with assms have "q \<le> 2 ^ 53 * u" by simp
  then have "q / u \<le> 2 ^ 53" using u by (simp add: pos_divide_le_eq)
  then have "q / u \<le> of_int (2 ^ 53)" by simp
  then have "round_half_even (q / u) \<le> round_half_even (of_int (2 ^ 53))"
    by (rule round_half_even_mono)
  then have "round_half_even (q / u) \<le> 2 ^ 53"
    by (simp only: round_half_even_of_int)
  then have "of_int (round_half_even (q / u)) \<le> (2::real) ^ 53"
    by (metis of_int_le_iff of_int_numeral of_int_power)
  then have "of_int (round_half_even (q / u)) * u \<le> 2 ^ 53 * u"
    using u by (simp add: mult_right_mono)
  with p show ?thesis
    by (simp add: round_to_def Let_def u_def)
qed

lemma round_to_mono_same:
  assumes "q \<le> q'"
  shows "round_to q e \<le> round_to q' e"
proof -
  define u where "u = (2::real) powi (e - 52)"
  have u: "0 < u" by (simp add: u_def)
  from assms u have "q / u \<le> q' / u" by (simp add: divide_right_mono)
  then have "round_half_even (q / u) \<le> round_half_even (q' / u)"
    by (rule round_half_even_mono)
  then have "(of_int (round_half_even (q / u)) :: real) \<le> of_int (round_half_even (q' / u))"
    by simp
  then have "of_int (round_half_even (q / u)) * u \<le> of_int (round_half_even (q' / u)) * u"
    using u by (simp add: mult_right_mono)
  then show ?thesis by (simp add: round_to_def Let_def u_def)
qed

lemma round_to_error:
  assumes "2 powi e \<le> q"
  shows "\<bar>round_to q e - q\<bar> \<le> q / 2 ^ 53"
proof -
  define u where "u = (2::real) powi (e - 52)"
  define r where "r = (of_int (round_half_even (q / u)) :: real)"
  have u: "0 < u" by (simp add: u_def)
  have "\<bar>r - q / u\<bar> \<le> 1 / 2" unfolding r_def by (rule round_half_even_error)
  then have "\<bar>r - q / u\<bar> * u \<le> 1 / 2 * u" using u by (simp add: mult_right_mono)
  moreover have "\<bar>r - q / u\<bar> * u = \<bar>r * u - q\<bar>"
  proof -
    have "\<bar>r - q / u\<bar> * u = \<bar>(r - q / u) * u\<bar>" using u by (simp add: abs_mult)
    also have "(r - q / u) * u = r * u - q" using u by (simp add: algebra_simps)
    finally show ?thesis .
  qed
  ultimately have "\<bar>r * u - q\<bar> \<le> u / 2" by simp
  also have "u / 2 = 2 powi e / 2 ^ 53" unfolding u_def by (rule pow2_half)
  also have "\<dots> \<le> q / 2 ^ 53" using assms by (simp add: divide_right_mono)
  finally show ?thesis by (simp add: round_to_def Let_def u_def r_def)
qed

lemma float_div_exponent:
  assumes "0 < a" "0 < b"
  shows "\<exists>e. 2 powi e \<le> real a / real b \<and> real a / real b < 2 powi (e + 1) \<and>
             float_div a b = round_to (real a / real b) e"
proof -
  define q where "q = real a / real b"
  define la where "la = bit_length a"
  define lb where "lb = bit_length b"
  define e0 where "e0 = int la - int lb"
  from bit_length_bounds[OF assms(1)] have a1: "2 ^ (la - 1) \<le> a" and a2: "a < 2 ^ la"
    by (simp_all add: la_def)
  from bit_length_bounds[OF assms(2)] have b1: "2 ^ (lb - 1) \<le> b" and b2: "b < 2 ^ lb"
    by (simp_all add: lb_def)
  have la: "0 < la" using a2 assms(1) by (cases la) simp_all
  have lb: "0 < lb" using b2 assms(2) by (cases lb) simp_all
  have ra1: "(2::real) powi (int la - 1) \<le> real a"
  proof -
    have "real (2 ^ (la - 1)) \<le> real a" using a1 by (simp only: of_nat_le_iff)
    moreover have "int la - 1 = int (la - 1)" using la by simp
    ultimately show ?thesis by (simp only: power_int_of_nat) simp
  qed
  have ra2: "real a < 2 powi (int la)"
  proof -
    have "real a < real (2 ^ la)" using a2 by (simp only: of_nat_less_iff)
    then show ?thesis by simp
  qed
  have rb1: "(2::real) powi (int lb - 1) \<le> real b"
  proof -
    have "real (2 ^ (lb - 1)) \<le> real b" using b1 by (simp only: of_nat_le_iff)
    moreover have "int lb - 1 = int (lb - 1)" using lb by simp
    ultimately show ?thesis by (simp only: power_int_of_nat) simp
  qed
  have rb2: "real b < 2 powi (int lb)"
  proof -
    have "real b < real (2 ^ lb)" using b2 by (simp only: of_nat_less_iff)
    then show ?thesis by simp
  qed
  have bpos: "0 < real b" using assms(2) by simp
  have qb: "q * real b = real a" using bpos by (simp add: q_def)
  have up: "q < 2 powi (e0 + 1)"
  proof -
    have "(2::real) powi (int la) = 2 powi (e0 + 1) * 2 powi (int lb - 1)"
    proof -
      have "(2::real) powi ((e0 + 1) + (int lb - 1)) = 2 powi (e0 + 1) * 2 powi (int lb - 1)"
        by (rule power_int_add) simp
      then show ?thesis by (simp add: e0_def)
    qed
    also have "\<dots> \<le> 2 powi (e0 + 1) * real b"
      using rb1 by (simp add: mult_left_mono)
    finally have le: "(2::real) powi (int la) \<le> 2 powi (e0 + 1) * real b" .
    from ra2 le have "real a < 2 powi (e0 + 1) * real b" by (rule less_le_trans)
    then have "q * real b < 2 powi (e0 + 1) * real b" by (simp only: qb)
    then show ?thesis using bpos by simp
  qed
  have low: "2 powi (e0 - 1) \<le> q"
  proof -
    have "(2::real) powi (e0 - 1) * real b \<le> 2 powi (e0 - 1) * 2 powi (int lb)"
      using rb2 by (simp add: mult_left_mono)
    also have "\<dots> = 2 powi (int la - 1)"
    proof -
      have "(2::real) powi ((e0 - 1) + int lb) = 2 powi (e0 - 1) * 2 powi (int lb)"
        by (rule power_int_add) simp
      then show ?thesis by (simp add: e0_def)
    qed
    finally have le: "(2::real) powi (e0 - 1) * real b \<le> 2 powi (int la - 1)" .
    from le ra1 have "2 powi (e0 - 1) * real b \<le> real a" by (rule order_trans)
    then have "2 powi (e0 - 1) * real b \<le> q * real b" by (simp only: qb)
    then show ?thesis using bpos by simp
  qed
  define e where "e = (if 2 powi e0 \<le> q then e0 else e0 - 1)"
  have "2 powi e \<le> q \<and> q < 2 powi (e + 1)"
    using up low by (auto simp: e_def)
  moreover have "float_div a b = round_to q e"
    using assms(1) by (simp add: float_div_def Let_def q_def e_def e0_def la_def lb_def)
  ultimately show ?thesis unfolding q_def by blast
qed

lemma float_div_nonneg: "0 < b \<Longrightarrow> 0 \<le> float_div a b"
proof (cases "a = 0")
  case True
  then show ?thesis by (simp add: float_div_def)
next
  case False
  assume "0 < b"
  with False obtain e where "2 powi e \<le> real a / real b"
    "float_div a b = round_to (real a / real b) e"
    using float_div_exponent[of a b] by auto
  with round_to_lower[of e "real a / real b"] have "2 powi e \<le> float_div a b" by simp
  moreover have "0 < (2::real) powi e" by simp
  ultimately show ?thesis by linarith
qed

lemma float_div_mono:
  assumes "0 < b" "0 < b'" "a * b' \<le> a' * b"
  shows "float_div a b \<le> float_div a' b'"
proof (cases "a = 0")
  case True
  with float_div_nonneg[OF assms(2)] show ?thesis by (simp add: float_div_def)
next
  case False
  then have a: "0 < a" by simp
  have a': "0 < a'"
  proof (rule ccontr)
    assume "\<not> 0 < a'"
    with assms(3) have "a * b' = 0" by simp
    with a assms(2) show False by simp
  qed
  define q where "q = real a / real b"
  define q' where "q' = real a' / real b'"
  have "real (a * b') \<le> real (a' * b)" using assms(3) by (simp only: of_nat_le_iff)
  then have qq: "q \<le> q'"
    using assms(1,2) by (simp add: q_def q'_def field_simps)
  from float_div_exponent[OF a assms(1)] obtain e where
    e: "2 powi e \<le> q" "q < 2 powi (e + 1)" "float_div a b = round_to q e"
    unfolding q_def by blast
  from float_div_exponent[OF a' assms(2)] obtain e' where
    e': "2 powi e' \<le> q'" "q' < 2 powi (e' + 1)" "float_div a' b' = round_to q' e'"
    unfolding q'_def by blast
  from e(1) qq e'(2) have "(2::real) powi e < 2 powi (e' + 1)" by linarith
  then have "e < e' + 1" by (rule pow2_less_imp)
  then consider "e = e'" | "e + 1 \<le> e'" by linarith
  then show ?thesis
  proof cases
    case 1
    with round_to_mono_same[OF qq, of e] e(3) e'(3) show ?thesis by simp
  next
    case 2
    have "round_to q e \<le> 2 powi (e + 1)" using e(2) by (intro round_to_upper) simp
    also have "(2::real) powi (e + 1) \<le> 2 powi e'" using 2 by (intro power_int_increasing) simp_all
    also have "\<dots> \<le> round_to q' e'" using e'(1) by (rule round_to_lower)
    finally show ?thesis using e(3) e'(3) by simp
  qed
qed

lemma float_div_error:
  assumes "0 < b"
  shows "\<bar>float_div a b - real a / real b\<bar> \<le> (real a / real b) / 2 ^ 53"
proof (cases "a = 0")
  case True
  then show ?thesis by (simp add: float_div_def)
next
  case False
  with assms obtain e where "2 powi e \<le> real a / real b"
    "float_div a b = round_to (real a / real b) e"
    using float_div_exponent[of a b] by auto
  with round_to_error[of e "real a / real b"] show ?thesis by simp
qed

lemma float_div_less:
  assumes "0 < b" "0 < r" "a * r < p * b" "p * b < 2 ^ 52"
  shows "float_div a b < float_div p r"
proof -
  define x where "x = real a / real b"
  define t where "t = real p / real r"
  have X: "float_div a b \<le> x + x / 2 ^ 53"
    using float_div_error[OF assms(1), of a] by (simp add: x_def abs_le_iff)
  have T: "t - t / 2 ^ 53 \<le> float_div p r"
    using float_div_error[OF assms(2), of p] by (simp add: t_def abs_le_iff)
  have "a * r * (2 ^ 53 + 1) < p * b * (2 ^ 53 - 1)"
    using assms(3,4) by simp
  then have "real (a * r * (2 ^ 53 + 1)) < real (p * b * (2 ^ 53 - 1))"
    by (simp only: of_nat_less_iff)
  then have "real a * real r * (2 ^ 53 + 1) < real p * real b * (2 ^ 53 - 1)"
    by simp
  then have "x * (2 ^ 53 + 1) < t * (2 ^ 53 - 1)"
    using assms(1,2) by (simp add: x_def t_def field_simps)
  then have "x + x / 2 ^ 53 < t - t / 2 ^ 53"
    by (simp add: field_simps)
  with X T show ?thesis by linarith
qed

lemma float_div_less_iff:
  assumes "0 < b" "0 < r" "p * b < 2 ^ 52"
  shows "float_div a b < float_div p r \<longleftrightarrow> real a / real b < real p / real r"
proof -
  have eq: "real a / real b < real p / real r \<longleftrightarrow> a * r < p * b"
  proof -
    have "real a / real b < real p / real r \<longleftrightarrow> real (a * r) < real (p * b)"
      using assms(1,2) by (simp add: field_simps)
    then show ?thesis by (simp only: of_nat_less_iff)
  qed
  show ?thesis
  proof (cases "a * r < p * b")
    case True
    with float_div_less[OF assms(1,2) True assms(3)] eq show ?thesis by simp
  next
    case False
    then have "p * b \<le> a * r" by simp
    then have "float_div p r \<le> float_div a b"
      using assms(1,2) by (intro float_div_mono) simp_all
    with False eq show ?thesis by simp
  qed
qed

lemmas float_eval = float_div_def round_to_def bit_length.simps round_half_even_def Let_def

text \<open>
  The literals denote the same numbers as in CPython, where \<open>(0.1).as_integer_ratio()\<close> is
  \<open>(3602879701896397, 36028797018963968)\<close>.
\<close>

lemma float_literal_values:
  "lit_0_1 = 3602879701896397 / 36028797018963968"
  "lit_0_15 = 5404319552844595 / 36028797018963968"
  "lit_0_2 = 3602879701896397 / 18014398509481984"
  "lit_0_25 = 1 / 4"
  "lit_0_3 = 5404319552844595 / 18014398509481984"
  by (simp_all add: lit_0_1_def lit_0_15_def lit_0_2_def lit_0_25_def lit_0_3_def float_eval)

lemma float_div_integers:
  "float_div 10 1 = 10" "float_div 15 1 = 15" "float_div 20 1 = 20" "float_div 25 1 = 25"
  "float_div 30 1 = 30"
  by (simp_all add: float_eval)

lemma avg_test_exact:
  assumes "0 < n" "p * n < 2 ^ 52" "float_div p 1 = real p"
  shows "float_div tot n < real p \<longleftrightarrow> real tot / real n < real p"
  using float_div_less_iff[OF assms(1) zero_less_one assms(2), of tot] assms(3) by simp

lemma ratio_test_exact:
  assumes "0 < tot" "0 < r" "p * tot < 2 ^ 52"
  shows "float_div cx tot < float_div p r \<longleftrightarrow> real cx / real tot < real p / real r"
  using assms by (rule float_div_less_iff)

lemma classify_exact:
  assumes "0 < n" "0 < tot" "n < 2 ^ 46" "tot < 2 ^ 46"
  shows "classify (float_div tot n) (float_div cx tot) =
           band_of (real tot / real n) (real cx / real tot)"
proof -
  have n: "10 * n < 2 ^ 52" "15 * n < 2 ^ 52" "20 * n < 2 ^ 52" "25 * n < 2 ^ 52"
    "30 * n < 2 ^ 52" using assms(3) by simp_all
  have t: "1 * tot < 2 ^ 52" "15 * tot < 2 ^ 52" "2 * tot < 2 ^ 52" "25 * tot < 2 ^ 52"
    "3 * tot < 2 ^ 52" using assms(4) by simp_all
  have a10: "float_div tot n < 10 \<longleftrightarrow> real tot / real n < 10"
    using avg_test_exact[OF assms(1) n(1), of tot] float_div_integers(1) by simp
  have a15: "float_div tot n < 15 \<longleftrightarrow> real tot / real n < 15"
    using avg_test_exact[OF assms(1) n(2), of tot] float_div_integers(2) by simp
  have a20: "float_div tot n < 20 \<longleftrightarrow> real tot / real n < 20"
    using avg_test_exact[OF assms(1) n(3), of tot] float_div_integers(3) by simp
  have a25: "float_div tot n < 25 \<longleftrightarrow> real tot / real n < 25"
    using avg_test_exact[OF assms(1) n(4), of tot] float_div_integers(4) by simp
  have a30: "float_div tot n < 30 \<longleftrightarrow> real tot / real n < 30"
    using avg_test_exact[OF assms(1) n(5), of tot] float_div_integers(5) by simp
  have r10: "float_div cx tot < lit_0_1 \<longleftrightarrow> real cx / real tot < 10 / 100"
    using ratio_test_exact[OF assms(2) _ t(1), of 10 cx] by (simp add: lit_0_1_def)
  have r15: "float_div cx tot < lit_0_15 \<longleftrightarrow> real cx / real tot < 15 / 100"
    using ratio_test_exact[OF assms(2) _ t(2), of 100 cx] by (simp add: lit_0_15_def)
  have r20: "float_div cx tot < lit_0_2 \<longleftrightarrow> real cx / real tot < 20 / 100"
    using ratio_test_exact[OF assms(2) _ t(3), of 10 cx] by (simp add: lit_0_2_def)
  have r25: "float_div cx tot < lit_0_25 \<longleftrightarrow> real cx / real tot < 25 / 100"
    using ratio_test_exact[OF assms(2) _ t(4), of 100 cx] by (simp add: lit_0_25_def)
  have r30: "float_div cx tot < lit_0_3 \<longleftrightarrow> real cx / real tot < 30 / 100"
    using ratio_test_exact[OF assms(2) _ t(5), of 10 cx] by (simp add: lit_0_3_def)
  show ?thesis
    unfolding classify_def band_of_def
    by (simp only: a10 a15 a20 a25 a30 r10 r15 r20 r25 r30)
qed

lemma classify_in_levels:
  "classify x y \<in> {ustr ''A1'', ustr ''A2'', ustr ''B1'', ustr ''B2'', ustr ''C1'', ustr ''C2''}"
  by (simp add: classify_def)

lemma band_of_example: "band_of 22 (22 / 100) = ustr ''B2''"
  by (simp add: band_of_def)

text \<open>
  Claim C5.  For a non-empty list of sentences with at least one token the scorer returns
  one of the six levels, chosen by the first of the six ordered bands that matches.  The
  code tests the binary64 quotients against binary64 literals; below \<open>2 ^ 46\<close> sentences
  and tokens no rounding can change the outcome of a test, and the level is the band of
  the exact average sentence length and the exact ratio of long tokens.  An average of
  22 with a ratio of 0.22 gives \<open>"B2"\<close>.
\<close>

theorem difficulty_bands:
  assumes "S \<noteq> []" "0 < total_tokens S"
  shows "(\<exists>lvl\<in>{ustr ''A1'', ustr ''A2'', ustr ''B1'', ustr ''B2'', ustr ''C1'', ustr ''C2''}.
            calculate_difficulty (PyList (map PyStr S)) = Inr lvl) \<and>
         (length S < 2 ^ 46 \<and> total_tokens S < 2 ^ 46 \<longrightarrow>
            calculate_difficulty (PyList (map PyStr S)) =
              Inr (band_of (real (total_tokens S) / real (length S))
                           (real (long_tokens S) / real (total_tokens S)))) \<and>
         (length S < 2 ^ 46 \<and> total_tokens S < 2 ^ 46 \<and>
          real (total_tokens S) / real (length S) = 22 \<and>
          real (long_tokens S) / real (total_tokens S) = 22 / 100 \<longrightarrow>
            calculate_difficulty (PyList (map PyStr S)) = Inr (ustr ''B2''))"
proof -
  have c: "calculate_difficulty (PyList (map PyStr S)) =
      Inr (classify (float_div (total_tokens S) (length S))
                    (float_div (long_tokens S) (total_tokens S)))"
    using assms by (simp add: calculate_difficulty_strs)
  have n: "0 < length S" using assms(1) by simp
  have exact: "calculate_difficulty (PyList (map PyStr S)) =
      Inr (band_of (real (total_tokens S) / real (length S))
                   (real (long_tokens S) / real (total_tokens S)))"
    if "length S < 2 ^ 46" "total_tokens S < 2 ^ 46"
    using c classify_exact[OF n assms(2) that] by simp
  have "\<exists>lvl\<in>{ustr ''A1'', ustr ''A2'', ustr ''B1'', ustr ''B2'', ustr ''C1'', ustr ''C2''}.
            calculate_difficulty (PyList (map PyStr S)) = Inr lvl"
    using c classify_in_levels by blast
  moreover have "length S < 2 ^ 46 \<and> total_tokens S < 2 ^ 46 \<longrightarrow>
            calculate_difficulty (PyList (map PyStr S)) =
              Inr (band_of (real (total_tokens S) / real (length S))
                           (real (long_tokens S) / real (total_tokens S)))"
    using exact by blast
  moreover have "length S < 2 ^ 46 \<and> total_tokens S < 2 ^ 46 \<and>
          real (total_tokens S) / real (length S) = 22 \<and>
          real (long_tokens S) / real (total_tokens S) = 22 / 100 \<longrightarrow>
            calculate_difficulty (PyList (map PyStr S)) = Inr (ustr ''B2'')"
  proof (intro impI, elim conjE)
    assume l: "length S < 2 ^ 46" "total_tokens S < 2 ^ 46"
      and eqs: "real (total_tokens S) / real (length S) = 22"
        "real (long_tokens S) / real (total_tokens S) = 22 / 100"
    from exact[OF l] show "calculate_difficulty (PyList (map PyStr S)) = Inr (ustr ''B2'')"
      unfolding eqs band_of_example .
  qed
  ultimately show ?thesis by (intro conjI)
qed

lemmas scorer_eval = total_tokens_def long_tokens_def str_split_def is_space_def ustr_def

theorem difficulty_bands_witness:
  "calculate_difficulty (PyList (map PyStr [ustr ''a b c d e''])) = Inr (ustr ''A1'') \<and>
   calculate_difficulty (PyList (map PyStr [ustr ''internationalization is a word'',
       ustr ''misunderstanding happens''])) = Inr (ustr ''C2'')"
proof -
  let ?S = "[ustr ''a b c d e'']"
  let ?T = "[ustr ''internationalization is a word'', ustr ''misunderstanding happens'']"
  have s: "?S \<noteq> []" "total_tokens ?S = 5" "long_tokens ?S = 0" "length ?S = 1"
    by (simp_all add: scorer_eval)
  have t: "?T \<noteq> []" "total_tokens ?T = 6" "long_tokens ?T = 2" "length ?T = 2"
    by (simp_all add: scorer_eval)
  have "calculate_difficulty (PyList (map PyStr ?S)) = Inr (band_of (5 / 1) (0 / 5))"
    using difficulty_bands[of ?S, THEN conjunct2, THEN conjunct1] s by simp
  moreover have "calculate_difficulty (PyList (map PyStr ?T)) = Inr (band_of (6 / 2) (2 / 6))"
    using difficulty_bands[of ?T, THEN conjunct2, THEN conjunct1] t by simp
  ultimately show ?thesis by (simp add: band_of_def)
qed

section \<open>Properties of the analysis handler\<close>

lemma process_response_decode_error:
  assumes "loads (extract_json result) = Inl e"
  shows "process_response loads result = ([], Inl e)"
  using assms by (simp add: process_response_def Let_def bind_io_lift_Inl)

lemma process_response_Inr:
  assumes "process_response loads result = (evs, Inr r)"
  obtains ws wm wx ss ts e1 e2 ws' wm' wx' ss' ts' where
    "fix_vocabulary ws wm wx = (e1, Inr (ws', wm', wx'))"
    "fix_sentences ss ts = (e2, Inr (ss', ts'))"
    "sentences r = ss'" "translation_list r = ts'"
    "words r = ws'" "word_meanings r = wm'" "word_sentences r = wx'"
  using assms unfolding process_response_def Let_def
  by (auto elim!: bind_io_Inr simp: lift_io_Inr return_io_def split: prod.splits)

text \<open>
  Claim C1.  When the body of the \<open>try\<close> statement completes, the handler stores its record,
  and in that record \<open>sentences\<close> and \<open>translations\<close> have one length, and \<open>words\<close>,
  \<open>word_meanings\<close> and \<open>word_sentences\<close> have one length.
\<close>

theorem stored_record_aligned:
  assumes "process_response loads result = (evs, Inr r)"
  shows "analyze loads url_input result st =
           (st\<lparr>analysis_data := Some r, current_url := url_input\<rparr>, evs) \<and>
         (\<exists>n. py_len (sentences r) = Inr n \<and> py_len (translation_list r) = Inr n) \<and>
         (\<exists>k. py_len (words r) = Inr k \<and> py_len (word_meanings r) = Inr k \<and>
              py_len (word_sentences r) = Inr k)"
proof -
  have "analyze loads url_input result st =
           (st\<lparr>analysis_data := Some r, current_url := url_input\<rparr>, evs)"
    using assms by (simp add: analyze_def)
  moreover from assms obtain ws wm wx ss ts e1 e2 ws' wm' wx' ss' ts' where
    fv: "fix_vocabulary ws wm wx = (e1, Inr (ws', wm', wx'))" and
    fs: "fix_sentences ss ts = (e2, Inr (ss', ts'))" and
    r: "sentences r = ss'" "translation_list r = ts'"
       "words r = ws'" "word_meanings r = wm'" "word_sentences r = wx'"
    by (rule process_response_Inr)
  note fix_sentences_aligned[OF fs] fix_vocabulary_aligned[OF fv]
  ultimately show ?thesis using r by simp
qed

lemma sample_run:
  "process_response (\<lambda>json_str. Inr sample_data) (ustr ''{}'') =
     ([Warning_vocabulary 2 1 2, Info_aligned 1, Warning_sentences 1 2, Info_aligned 1],
      Inr sample_record)"
  by (simp add: process_response_def sample_data_def sample_record_def fix_vocabulary_def
      vocabulary_mismatch_def fix_sentences_def io_eval score_eval ustr_def)

theorem stored_record_aligned_witness:
  "analyze (\<lambda>json_str. Inr sample_data) (ustr ''http://a'') (ustr ''{}'')
     \<lparr>analysis_data = None, current_url = []\<rparr> =
     (\<lparr>analysis_data = Some sample_record, current_url = ustr ''http://a''\<rparr>,
      [Warning_vocabulary 2 1 2, Info_aligned 1, Warning_sentences 1 2, Info_aligned 1]) \<and>
   (\<exists>n. py_len (sentences sample_record) = Inr n \<and>
        py_len (translation_list sample_record) = Inr n) \<and>
   (\<exists>k. py_len (words sample_record) = Inr k \<and> py_len (word_meanings sample_record) = Inr k \<and>
        py_len (word_sentences sample_record) = Inr k)"
  using stored_record_aligned[OF sample_run, of "ustr ''http://a''"
      "\<lparr>analysis_data = None, current_url = []\<rparr>"]
  by simp

text \<open>
  Claim C7.  When decoding the extracted text fails, the session state is returned as it
  was and the raw response is shown after the error message; and whatever exception the
  body of the \<open>try\<close> statement raises, the session state is returned as it was and the
  raw response is the last thing shown.
\<close>

theorem failure_keeps_state:
  "(loads (extract_json result) = Inl JSONDecodeError \<longrightarrow>
      analyze loads url_input result st = (st, [Error_parse, Write_original, Code result])) \<and>
   (process_response loads result = (evs, Inl e) \<longrightarrow>
      fst (analyze loads url_input result st) = st \<and>
      (\<exists>msg. snd (analyze loads url_input result st) = evs @ [msg, Write_original, Code result]))"
proof (intro conjI impI)
  assume "loads (extract_json result) = Inl JSONDecodeError"
  then have "process_response loads result = ([], Inl JSONDecodeError)"
    by (rule process_response_decode_error)
  then show "analyze loads url_input result st = (st, [Error_parse, Write_original, Code result])"
    by (simp add: analyze_def)
next
  assume f: "process_response loads result = (evs, Inl e)"
  then show "fst (analyze loads url_input result st) = st"
    by (cases e) (simp_all add: analyze_def)
  from f show "\<exists>msg. snd (analyze loads url_input result st) = evs @ [msg, Write_original, Code result]"
    by (cases e) (simp_all add: analyze_def)
qed

theorem failure_keeps_state_witness:
  "analyze (\<lambda>json_str. Inl JSONDecodeError) (ustr ''http://a'') (ustr ''not json'')
     \<lparr>analysis_data = Some sample_record, current_url = ustr ''http://b''\<rparr> =
     (\<lparr>analysis_data = Some sample_record, current_url = ustr ''http://b''\<rparr>,
      [Error_parse, Write_original, Code (ustr ''not json'')]) \<and>
   fst (analyze (\<lambda>json_str. Inr (PyList [])) (ustr ''http://a'') (ustr ''[]'')
     \<lparr>analysis_data = Some sample_record, current_url = ustr ''http://b''\<rparr>) =
     \<lparr>analysis_data = Some sample_record, current_url = ustr ''http://b''\<rparr>"
proof -
  let ?st = "\<lparr>analysis_data = Some sample_record, current_url = ustr ''http://b''\<rparr>"
  have a: "(\<lambda>json_str. Inl JSONDecodeError :: py_error + pyval) (extract_json (ustr ''not json''))
             = Inl JSONDecodeError" by simp
  have b: "process_response (\<lambda>json_str. Inr (PyList [])) (ustr ''[]'') = ([], Inl AttributeError)"
    by (simp add: process_response_def io_eval)
  from failure_keeps_state[of "\<lambda>json_str. Inl JSONDecodeError" "ustr ''not json''"
      "ustr ''http://a''" ?st, THEN conjunct1, THEN mp, OF a]
    failure_keeps_state[of _ _ _ _ "[]" AttributeError, THEN conjunct2, THEN mp, OF b,
      THEN conjunct1, of "ustr ''http://a''" ?st]
  show ?thesis by (rule conjI)
qed

section \<open>Properties of the sentence document\<close>











section \<open>Properties of the vocabulary table\<close>



























end
